theory Spec2Isabelle
  imports Main "HOL-Library.Sublist"
begin

section \<open>The notes client: conditional update with ETag retry (src/client/notes.ts)\<close>

subsection \<open>Data\<close>

text \<open>
  JavaScript strings are modelled as \<open>string\<close>. The only string operations of the
  code under study are concatenation, the removal of the character \<open>"\<close> and the
  search for the substring \<open>412\<close>; all three act alike on any encoding in which
  these ASCII characters are single units.
\<close>

text \<open>
  Modelled from the spec: the \<open>Note\<close> type of \<open>models/notes\<close> is not part of the sources.
  The spec describes a versioned resource with a numeric id, a title, a content, a category
  and an opaque version tag; the client reads the \<open>etag\<close> field only.
\<close>

record Note =
  note_id :: int
  note_title :: string
  note_content :: string
  note_category :: string
  note_etag :: string

text \<open>
  A value thrown by a request. The client tests \<open>error instanceof Error\<close> before it
  reads \<open>error.message\<close>, so the model distinguishes an \<open>Error\<close> object (with its
  message) from any other thrown value (kept as a description).
\<close>

datatype thrown = Error string | NonError string

text \<open>
  The two requests the update protocol sends through \<open>makeRequest\<close>: the \<open>PUT\<close> of
  \<open>updateNoteWithRetry\<close>, with the note id of its URL, the \<open>If-Match\<close> header and the three
  optional data fields, and the \<open>GET\<close> of \<open>getNote\<close>, with the note id of its URL.
\<close>

datatype request =
    PUT int string "string option" "string option" "string option"
  | GET int

type_synonym response = "thrown + Note"

type_synonym event = "request \<times> response"

text \<open>
  \<open>makeRequest\<close> lives in \<open>client/base\<close>, which is not part of the sources. It is a
  parameter of the model: any function from the state of the remote service and a request
  to a response and the next state. The state type is arbitrary, so the function covers
  every behaviour of the service, including answers that change from call to call.
\<close>

type_synonym 's transport = "'s \<Rightarrow> request \<Rightarrow> response \<times> 's"

subsection \<open>Operations\<close>

definition dquote :: char where
  "dquote = CHR 0x22"

text \<open>\<open>msg.includes(sub)\<close>: \<open>sub\<close> occurs in \<open>msg\<close> as a contiguous substring.\<close>

fun includesStr :: "string \<Rightarrow> string \<Rightarrow> bool" where
  "includesStr [] sub = (sub = [])"
| "includesStr (c # cs) sub = (prefix sub (c # cs) \<or> includesStr cs sub)"

text \<open>The test of lines 65 and 75: \<open>error instanceof Error && error.message.includes('412')\<close>.\<close>

fun is412 :: "thrown \<Rightarrow> bool" where
  "is412 (Error message) = includesStr message ''412''"
| "is412 (NonError v) = False"

text \<open>Line 51: \<open>[etag, `"${etag}"`, etag.replace(/"/g, '')]\<close>.\<close>

definition etagFormats :: "string \<Rightarrow> string list" where
  "etagFormats etag = [etag, [dquote] @ etag @ [dquote], filter (\<lambda>c. c \<noteq> dquote) etag]"

text \<open>
  The loop of lines 54 to 71 over the remaining formats. \<open>lastError\<close> is the variable of
  the source (\<open>None\<close> for \<open>null\<close>). A response ends the loop; an error that fails the
  412 test is thrown again at once; a 412 error is kept in \<open>lastError\<close> and the loop goes on.
  After the last format, \<open>throw lastError\<close>. The third component is the list of the
  requests sent, each with its response, in order.
\<close>

fun tryFormats ::
  "'s transport \<Rightarrow> (string \<Rightarrow> request) \<Rightarrow> 's \<Rightarrow> string list \<Rightarrow> thrown option
     \<Rightarrow> response \<times> 's \<times> event list" where
  "tryFormats makeRequest req s [] lastError =
     (case lastError of
        None \<Rightarrow> (Inl (NonError ''null''), s, [])
      | Some e \<Rightarrow> (Inl e, s, []))"
| "tryFormats makeRequest req s (formattedEtag # rest) lastError =
     (case makeRequest s (req formattedEtag) of
        (Inr n, s') \<Rightarrow> (Inr n, s', [(req formattedEtag, Inr n)])
      | (Inl error, s') \<Rightarrow>
          if \<not> is412 error then (Inl error, s', [(req formattedEtag, Inl error)])
          else (case tryFormats makeRequest req s' rest (Some error) of
                  (r, s'', evs) \<Rightarrow> (r, s'', (req formattedEtag, Inl error) # evs)))"

text \<open>
  \<open>updateNoteWithRetry\<close>, lines 41 to 86. The outer \<open>catch\<close> receives whatever the loop
  threw. When it passes the 412 test and \<open>retryCount\<close> is zero, the note is fetched again:
  a failure of \<open>getNote\<close> is awaited inside the inner \<open>try\<close>, so it is caught and the
  original error is thrown. The recursive call is returned without \<open>await\<close>: the
  promise it returns settles the caller's promise after the \<open>try\<close> block has been left,
  so its outcome, success or error, is the outcome of the whole call and the inner
  \<open>catch\<close> never sees it.
\<close>

function updateNoteWithRetry ::
  "'s transport \<Rightarrow> 's \<Rightarrow> int \<Rightarrow> string \<Rightarrow> string option \<Rightarrow> string option \<Rightarrow> string option
     \<Rightarrow> nat \<Rightarrow> response \<times> 's \<times> event list" where
  "updateNoteWithRetry makeRequest s noteId etag title content category retryCount =
     (case tryFormats makeRequest (\<lambda>f. PUT noteId f title content category) s
             (etagFormats etag) None of
        (Inr n, s1, evs1) \<Rightarrow> (Inr n, s1, evs1)
      | (Inl error, s1, evs1) \<Rightarrow>
          if is412 error \<and> retryCount = 0 then
            (case makeRequest s1 (GET noteId) of
               (Inl refreshError, s2) \<Rightarrow>
                 (Inl error, s2, evs1 @ [(GET noteId, Inl refreshError)])
             | (Inr freshNote, s2) \<Rightarrow>
                 (case updateNoteWithRetry makeRequest s2 noteId (note_etag freshNote)
                         title content category 1 of
                    (r, s3, evs3) \<Rightarrow> (r, s3, evs1 @ [(GET noteId, Inr freshNote)] @ evs3)))
          else (Inl error, s1, evs1))"
  by pat_completeness auto
termination
  by (relation "measure (\<lambda>(makeRequest, s, noteId, etag, title, content, category, retryCount).
                            1 - retryCount)") auto

text \<open>\<open>updateNote\<close>, lines 31 to 39: the retry counter takes its default value 0.\<close>

definition updateNote ::
  "'s transport \<Rightarrow> 's \<Rightarrow> int \<Rightarrow> string \<Rightarrow> string option \<Rightarrow> string option \<Rightarrow> string option
     \<Rightarrow> response \<times> 's \<times> event list" where
  "updateNote makeRequest s noteId etag title content category =
     updateNoteWithRetry makeRequest s noteId etag title content category 0"

declare updateNoteWithRetry.simps [simp del]

text \<open>Reading a run: the requests sent with their responses, and the kind of a request.\<close>

definition events :: "response \<times> 's \<times> event list \<Rightarrow> event list" where
  "events x = snd (snd x)"

fun isPUT :: "event \<Rightarrow> bool" where
  "isPUT (PUT n f t c g, x) = True"
| "isPUT (GET n, x) = False"

fun isGET :: "event \<Rightarrow> bool" where
  "isGET (PUT n f t c g, x) = False"
| "isGET (GET n, x) = True"

subsection \<open>Concrete services\<close>

text \<open>
  A service that answers from a script: each request consumes the next response; when the
  script is over the connection fails.
\<close>

definition scripted :: "response list transport" where
  "scripted s req = (case s of [] \<Rightarrow> (Inl (Error ''ECONNRESET''), []) | x # xs \<Rightarrow> (x, xs))"

definition note7 :: "string \<Rightarrow> string \<Rightarrow> Note" where
  "note7 content tag =
     \<lparr>note_id = 7, note_title = ''A'', note_content = content, note_category = ''c'',
      note_etag = tag\<rparr>"

text \<open>A service that accepts only the quoted form \<open>"t0"\<close> of the tag.\<close>

definition quotedOnly :: "unit transport" where
  "quotedOnly s req =
     (case req of
        PUT n f t c g \<Rightarrow>
          if f = [dquote] @ ''t0'' @ [dquote] then (Inr (note7 ''y'' ''t1''), s)
          else (Inl (Error ''Request failed with status code 412''), s)
      | GET n \<Rightarrow> (Inr (note7 ''x'' ''t0''), s))"

text \<open>
  A service whose note is edited by someone else all the time: every update is refused with
  a 412 error whose message names the tag the service holds at that moment. The state
  counts the requests answered so far.
\<close>

definition contended :: "nat transport" where
  "contended s req =
     (case req of
        PUT n f t c g \<Rightarrow>
          (Inl (Error (''412 Precondition Failed, current etag is ''
                        @ (if s < 3 then ''v2'' else ''v4''))), Suc s)
      | GET n \<Rightarrow> (Inr (note7 ''x'' ''v3''), Suc s))"

text \<open>
  A service that accepts only the tag without its double quotes, \<open>W/t0\<close>, for the tag
  \<open>W/"t0"\<close>.
\<close>

definition weakTag :: string where
  "weakTag = ''W/'' @ [dquote] @ ''t0'' @ [dquote]"

definition strippedOnly :: "unit transport" where
  "strippedOnly s req =
     (case req of
        PUT n f t c g \<Rightarrow>
          if f = ''W/t0'' then (Inr (note7 ''y'' ''t1''), s)
          else (Inl (Error ''Request failed with status code 412''), s)
      | GET n \<Rightarrow> (Inr (note7 ''x'' weakTag), s))"

definition failingScript :: "response list" where
  "failingScript =
     [Inl (Error ''Request failed with status code 412''),
      Inl (Error ''Request failed with status code 500'')]"

section \<open>The request tracker (src/http-server.ts)\<close>

subsection \<open>JavaScript objects as property lists\<close>

text \<open>
  A \<open>Record<string, number>\<close> is modelled by the list of its own properties in the
  order in which JavaScript enumerates them (\<open>Object.entries\<close>, \<open>Object.keys\<close>, object
  spread, \<open>JSON.stringify\<close>): first the keys that are array indices, that is canonical
  decimal numerals below \<open>2^32 - 1 = 4294967295\<close>, in ascending numeric order, then every other key in
  the order of its creation.

\<close>

type_synonym 'v obj = "(string \<times> 'v) list"

text \<open>
  A value under a key of a counter object: a number, or a string. The numbers are the whole
  numbers from 0 on (the tracker starts at 0 and only adds 1); above \<open>2^53\<close> only those
  that are doubles occur. A string appears only when
  the tracker has added 1 to a member inherited from \<open>Object.prototype\<close>, so it always
  starts with the text of that member and is never a numeral.
\<close>

datatype jsval = Num nat | Str string

text \<open>
  \<open>n + 1\<close> on numbers, which are IEEE doubles: exact below \<open>2^53 = 9007199254740992\<close>.
  From \<open>2^53\<close> to \<open>2^54\<close> the doubles are the even numbers, \<open>n + 1\<close> lies half way
  between two of them and is rounded to the one whose half is even. From
  \<open>2^54 = 18014398509481984\<close> on the doubles are at least 4 apart and \<open>n + 1\<close> is
  rounded back to \<open>n\<close>.
\<close>

definition jsSucc :: "nat \<Rightarrow> nat" where
  "jsSucc n =
     (if n < 9007199254740992 then n + 1
      else if n < 18014398509481984 then (if even (n div 2) then n else n + 2)
      else n)"

text \<open>
  The members that every object inherits from \<open>Object.prototype\<close>, each with the string
  it converts to when 1 is added to it: the source text of a built-in function, and for the
  accessor \<open>__proto__\<close>, whose value is the prototype object, \<open>[object Object]\<close>.
\<close>

definition objectPrototype :: "(string \<times> string) list" where
  "objectPrototype =
     [(''constructor'', ''function Object() { [native code] }''),
      (''__defineGetter__'', ''function __defineGetter__() { [native code] }''),
      (''__defineSetter__'', ''function __defineSetter__() { [native code] }''),
      (''hasOwnProperty'', ''function hasOwnProperty() { [native code] }''),
      (''__lookupGetter__'', ''function __lookupGetter__() { [native code] }''),
      (''__lookupSetter__'', ''function __lookupSetter__() { [native code] }''),
      (''isPrototypeOf'', ''function isPrototypeOf() { [native code] }''),
      (''propertyIsEnumerable'', ''function propertyIsEnumerable() { [native code] }''),
      (''toString'', ''function toString() { [native code] }''),
      (''valueOf'', ''function valueOf() { [native code] }''),
      (''__proto__'', ''[object Object]''),
      (''toLocaleString'', ''function toLocaleString() { [native code] }'')]"

definition isDigit :: "char \<Rightarrow> bool" where
  "isDigit c = (48 \<le> (of_char c :: int) \<and> (of_char c :: int) \<le> 57)"

definition parseDecimal :: "string \<Rightarrow> int" where
  "parseDecimal k = foldl (\<lambda>n c. 10 * n + (of_char c - 48)) 0 k"

definition isArrayIndex :: "string \<Rightarrow> bool" where
  "isArrayIndex k =
     (case k of
        [] \<Rightarrow> False
      | c # cs \<Rightarrow> list_all isDigit k \<and> (if c = CHR ''0'' then cs = [] else True)
                  \<and> parseDecimal k < 4294967295)"

text \<open>\<open>obj[k]\<close>, read among the own properties.\<close>

definition objGet :: "'v obj \<Rightarrow> string \<Rightarrow> 'v option" where
  "objGet obj k = map_of obj k"

text \<open>
  \<open>obj[k] = v\<close>, and \<open>{ ...obj, [k]: v }\<close> alike: an existing property keeps its place
  and takes the new value; a new array index goes among the array indices, in numeric
  order; any other new key goes last.
\<close>

fun replaceValue :: "string \<Rightarrow> 'v \<Rightarrow> 'v obj \<Rightarrow> 'v obj" where
  "replaceValue k v [] = []"
| "replaceValue k v ((k', v') # rest) =
     (if k' = k then (k, v) # rest else (k', v') # replaceValue k v rest)"

fun insertIndex :: "string \<Rightarrow> 'v \<Rightarrow> 'v obj \<Rightarrow> 'v obj" where
  "insertIndex k v [] = [(k, v)]"
| "insertIndex k v ((k', v') # rest) =
     (if isArrayIndex k' \<and> parseDecimal k' < parseDecimal k
      then (k', v') # insertIndex k v rest
      else (k, v) # (k', v') # rest)"

definition objSet :: "'v obj \<Rightarrow> string \<Rightarrow> 'v \<Rightarrow> 'v obj" where
  "objSet obj k v =
     (if k \<in> set (map fst obj) then replaceValue k v obj
      else if isArrayIndex k then insertIndex k v obj
      else obj @ [(k, v)])"

text \<open>
  \<open>obj[k] = (obj[k] || 0) + 1\<close>, the statement of lines 126 to 137 and 142.
  An own number \<open>n\<close> becomes \<open>n + 1\<close> (0 is falsy and 0 + 1 is the same). An own string
  takes a \<open>1\<close> at its end, unless it is empty, which is falsy. A key that is not an own
  property and not inherited reads as undefined and gets the number 1. A key that is
  inherited reads as the inherited member, which is truthy and not a number: the sum is its
  text followed by \<open>1\<close>, stored as an own property, except under \<open>__proto__\<close>, whose
  setter ignores a string and leaves the object as it is.
\<close>

definition increment :: "jsval obj \<Rightarrow> string \<Rightarrow> jsval obj" where
  "increment obj k =
     (case objGet obj k of
        Some (Num n) \<Rightarrow> objSet obj k (Num (jsSucc n))
      | Some (Str s) \<Rightarrow> objSet obj k (if s = [] then Num 1 else Str (s @ ''1''))
      | None \<Rightarrow>
          (case map_of objectPrototype k of
             None \<Rightarrow> objSet obj k (Num 1)
           | Some inherited \<Rightarrow>
               if k = ''__proto__'' then obj else objSet obj k (Str (inherited @ ''1''))))"

text \<open>\<open>.reduce((acc, [k, v]) => ({ ...acc, [k]: v }), {})\<close>, lines 244, 249 and 255.\<close>

definition reduceToObject :: "(string \<times> 'v) list \<Rightarrow> 'v obj" where
  "reduceToObject entries = foldl (\<lambda>acc (k, v). objSet acc k v) [] entries"

subsection \<open>Sorting\<close>

text \<open>
  \<open>Array.prototype.sort\<close> with a comparison function: for a consistent comparison the
  result is the stable sorted permutation, which is unique; the model computes it by
  stable insertion. For a comparison that is not consistent (a string among the counts,
  or a collation that is not a total order) JavaScript leaves the order to the
  implementation; the properties below that read the order assume a consistent one.
\<close>

fun insertBy :: "('a \<Rightarrow> 'a \<Rightarrow> int) \<Rightarrow> 'a \<Rightarrow> 'a list \<Rightarrow> 'a list" where
  "insertBy cmp x [] = [x]"
| "insertBy cmp x (y # ys) = (if cmp x y \<le> 0 then x # y # ys else y # insertBy cmp x ys)"

definition sortBy :: "('a \<Rightarrow> 'a \<Rightarrow> int) \<Rightarrow> 'a list \<Rightarrow> 'a list" where
  "sortBy cmp xs = foldr (insertBy cmp) xs []"

text \<open>
  \<open>([, a], [, b]) => b - a\<close>, lines 243 and 247. With a string on either side the
  difference is NaN, which \<open>sort\<close> takes for 0.
\<close>

definition byCountDesc :: "string \<times> jsval \<Rightarrow> string \<times> jsval \<Rightarrow> int" where
  "byCountDesc x y =
     (case (snd y, snd x) of
        (Num b, Num a) \<Rightarrow> int b - int a
      | (Num b, Str a) \<Rightarrow> 0
      | (Str b, a) \<Rightarrow> 0)"

text \<open>
  \<open>([a], [b]) => b.localeCompare(a)\<close>, line 252. \<open>String.prototype.localeCompare\<close> is
  the collation of the host's locale; it is a parameter of the model.
\<close>

definition byKeyDesc ::
  "(string \<Rightarrow> string \<Rightarrow> int) \<Rightarrow> string \<times> jsval \<Rightarrow> string \<times> jsval \<Rightarrow> int" where
  "byKeyDesc localeCompare x y = localeCompare (fst y) (fst x)"

subsection \<open>The analytics state and its two recording operations\<close>

record ToolCall =
  tc_tool :: string
  tc_timestamp :: string
  tc_clientIp :: string

record Analytics =
  serverStartTime :: string
  totalRequests :: nat
  totalToolCalls :: nat
  requestsByMethod :: "jsval obj"
  requestsByEndpoint :: "jsval obj"
  toolCalls :: "jsval obj"
  recentToolCalls :: "ToolCall list"
  clientsByIp :: "jsval obj"
  clientsByUserAgent :: "jsval obj"
  hourlyRequests :: "jsval obj"

text \<open>\<open>defaultAnalytics\<close>, lines 55 to 66; the start time is the clock's reading at load.\<close>

definition defaultAnalytics :: "string \<Rightarrow> Analytics" where
  "defaultAnalytics startTime =
     \<lparr>serverStartTime = startTime, totalRequests = 0, totalToolCalls = 0,
      requestsByMethod = [], requestsByEndpoint = [], toolCalls = [],
      recentToolCalls = [], clientsByIp = [], clientsByUserAgent = [],
      hourlyRequests = []\<rparr>"

text \<open>
  What \<open>trackRequest\<close> reads of an Express request: the method, the headers
  \<open>x-forwarded-for\<close> and \<open>user-agent\<close> and the field \<open>ip\<close>, each of the last three
  possibly undefined.
\<close>

record Request =
  req_method :: string
  req_forwardedFor :: "string option"
  req_ip :: "string option"
  req_userAgent :: "string option"

text \<open>\<open>a || b\<close> on strings: \<open>a\<close> unless it is undefined or empty.\<close>

definition orElse :: "string option \<Rightarrow> string \<Rightarrow> string" where
  "orElse a b = (case a of None \<Rightarrow> b | Some x \<Rightarrow> if x = [] then b else x)"

text \<open>Line 129 (and 574): \<open>header?.split(',')[0] || req.ip || 'unknown'\<close>.\<close>

definition clientIpOf :: "Request \<Rightarrow> string" where
  "clientIpOf req =
     orElse (map_option (takeWhile (\<lambda>c. c \<noteq> CHR '','')) (req_forwardedFor req))
       (orElse (req_ip req) ''unknown'')"

text \<open>
  \<open>trackRequest\<close>, lines 124 to 138. \<open>now\<close> is \<open>new Date().toISOString()\<close> at the call.
  The function is synchronous: it runs from its first statement to its last without giving
  control back to the event loop, so an invocation is one step from state to state.
\<close>

definition trackRequest :: "Analytics \<Rightarrow> Request \<Rightarrow> string \<Rightarrow> string \<Rightarrow> Analytics" where
  "trackRequest a req endpoint now =
     (let clientIp = clientIpOf req;
          userAgent = orElse (req_userAgent req) ''unknown'';
          shortAgent = orElse (Some (takeWhile (\<lambda>c. c \<noteq> CHR ''/'') userAgent))
                         (take 30 userAgent);
          hourKey = take 13 now @ '':00''
      in a\<lparr>totalRequests := jsSucc (totalRequests a),
            requestsByMethod := increment (requestsByMethod a) (req_method req),
            requestsByEndpoint := increment (requestsByEndpoint a) endpoint,
            clientsByIp := increment (clientsByIp a) clientIp,
            clientsByUserAgent := increment (clientsByUserAgent a) shortAgent,
            hourlyRequests := increment (hourlyRequests a) hourKey\<rparr>)"

text \<open>\<open>trackToolCall\<close>, lines 140 to 151: \<open>unshift\<close>, then one \<open>pop\<close> above 100 entries.\<close>

definition trackToolCall :: "Analytics \<Rightarrow> string \<Rightarrow> string \<Rightarrow> string \<Rightarrow> Analytics" where
  "trackToolCall a toolName clientIp now =
     (let recent = \<lparr>tc_tool = toolName, tc_timestamp = now, tc_clientIp = clientIp\<rparr>
                     # recentToolCalls a
      in a\<lparr>totalToolCalls := jsSucc (totalToolCalls a),
            toolCalls := increment (toolCalls a) toolName,
            recentToolCalls := (if length recent > 100 then butlast recent else recent)\<rparr>)"

text \<open>Invocations of the two operations, in the order in which the event loop runs them.\<close>

datatype invocation =
    TrackRequest Request string string
  | TrackToolCall string string string

fun invoke :: "Analytics \<Rightarrow> invocation \<Rightarrow> Analytics" where
  "invoke a (TrackRequest req endpoint now) = trackRequest a req endpoint now"
| "invoke a (TrackToolCall toolName clientIp now) = trackToolCall a toolName clientIp now"

fun requestTo :: "string \<Rightarrow> invocation \<Rightarrow> bool" where
  "requestTo endpoint (TrackRequest req endpoint' now) = (endpoint' = endpoint)"
| "requestTo endpoint (TrackToolCall toolName clientIp now) = False"

fun isRequest :: "invocation \<Rightarrow> bool" where
  "isRequest (TrackRequest req endpoint now) = True"
| "isRequest (TrackToolCall toolName clientIp now) = False"

text \<open>
  The count under a key, when \<open>obj[k] || 0\<close> is a number: the own number, or 0 for a key
  that is neither an own property nor inherited.
\<close>

definition counter :: "jsval obj \<Rightarrow> string \<Rightarrow> nat option" where
  "counter obj k =
     (case objGet obj k of
        Some (Num n) \<Rightarrow> Some n
      | Some (Str s) \<Rightarrow> None
      | None \<Rightarrow> (case map_of objectPrototype k of None \<Rightarrow> Some 0 | Some inherited \<Rightarrow> None))"

subsection \<open>The summary of \<open>GET /analytics\<close>\<close>

text \<open>Lines 242 to 255.\<close>

definition sortedTools :: "Analytics \<Rightarrow> jsval obj" where
  "sortedTools a = reduceToObject (sortBy byCountDesc (toolCalls a))"

definition sortedClients :: "Analytics \<Rightarrow> jsval obj" where
  "sortedClients a = reduceToObject (take 20 (sortBy byCountDesc (clientsByIp a)))"

definition last24Hours :: "(string \<Rightarrow> string \<Rightarrow> int) \<Rightarrow> Analytics \<Rightarrow> jsval obj" where
  "last24Hours localeCompare a =
     reduceToObject (rev (take 24 (sortBy (byKeyDesc localeCompare) (hourlyRequests a))))"

text \<open>
  The response body of lines 257 to 277, without the constant \<open>server\<close> field and the
  \<open>uptime\<close> text, which no property below reads.
\<close>

record Summary =
  sum_serverStartTime :: string
  sum_totalRequests :: nat
  sum_totalToolCalls :: nat
  sum_uniqueClients :: nat
  sum_byMethod :: "jsval obj"
  sum_byEndpoint :: "jsval obj"
  sum_byTool :: "jsval obj"
  sum_byIp :: "jsval obj"
  sum_byUserAgent :: "jsval obj"
  sum_hourlyRequests :: "jsval obj"
  sum_recentToolCalls :: "ToolCall list"

definition analyticsSummary :: "(string \<Rightarrow> string \<Rightarrow> int) \<Rightarrow> Analytics \<Rightarrow> Summary" where
  "analyticsSummary localeCompare a =
     \<lparr>sum_serverStartTime = serverStartTime a,
      sum_totalRequests = totalRequests a,
      sum_totalToolCalls = totalToolCalls a,
      sum_uniqueClients = length (map fst (clientsByIp a)),
      sum_byMethod = requestsByMethod a,
      sum_byEndpoint = requestsByEndpoint a,
      sum_byTool = sortedTools a,
      sum_byIp = sortedClients a,
      sum_byUserAgent = clientsByUserAgent a,
      sum_hourlyRequests = last24Hours localeCompare a,
      sum_recentToolCalls = take 20 (recentToolCalls a)\<rparr>"

text \<open>The handler of lines 239 to 278 records its own request first.\<close>

definition getAnalytics ::
  "(string \<Rightarrow> string \<Rightarrow> int) \<Rightarrow> Analytics \<Rightarrow> Request \<Rightarrow> string \<Rightarrow> Analytics \<times> Summary" where
  "getAnalytics localeCompare a req now =
     (let a' = trackRequest a req ''/analytics'' now
      in (a', analyticsSummary localeCompare a'))"

subsection \<open>Loading and saving the snapshot\<close>

text \<open>
  What the file system answers at start: no file (\<open>existsSync\<close> is false), a file that
  \<open>readFileSync\<close> fails to read, or the text of the file.
\<close>

datatype snapshotFile = Absent | Unreadable thrown | Content string

text \<open>
  What \<open>JSON.parse\<close> returns and line 73 casts to \<open>Analytics\<close> without a check: a value
  of that shape, or any other JSON value (\<open>null\<close>, \<open>{}\<close>, a number), kept as its text.
  \<open>JSON.parse\<close> itself is a parameter of the model: it throws or returns such a value.
\<close>

datatype loaded = State Analytics | Other string

text \<open>
  The \<open>try\<close> block of \<open>loadAnalytics\<close>, lines 70 to 76: it throws, returns the loaded
  state, or falls through.
\<close>

definition loadAnalyticsTry ::
  "(string \<Rightarrow> thrown + loaded) \<Rightarrow> snapshotFile \<Rightarrow> thrown + loaded option" where
  "loadAnalyticsTry parse file =
     (case file of
        Absent \<Rightarrow> Inr None
      | Unreadable e \<Rightarrow> Inl e
      | Content data \<Rightarrow>
          (case parse data of Inl e \<Rightarrow> Inl e | Inr v \<Rightarrow> Inr (Some v)))"

text \<open>
  \<open>loadAnalytics\<close>, lines 69 to 81, with the lines written to the console. \<open>Inl\<close> in the
  result would be an exception that leaves the function. \<open>startTime\<close> is the start time of
  \<open>defaultAnalytics\<close>.
\<close>

definition loadAnalytics ::
  "(string \<Rightarrow> thrown + loaded) \<Rightarrow> string \<Rightarrow> snapshotFile
     \<Rightarrow> (thrown + loaded) \<times> string list" where
  "loadAnalytics parse startTime file =
     (case loadAnalyticsTry parse file of
        Inr (Some v) \<Rightarrow> (Inr v, [''Loaded analytics''])
      | Inr None \<Rightarrow> (Inr (State (defaultAnalytics startTime)), [])
      | Inl error \<Rightarrow>
          (Inr (State (defaultAnalytics startTime)),
           [''Could not load analytics file, starting fresh'']))"

text \<open>
  What the file system answers at a save: whether the directory exists, and the exception
  of \<open>mkdirSync\<close> and of \<open>writeFileSync\<close>, if any.
\<close>

record disk =
  dirExists :: bool
  mkdirSync :: "thrown option"
  writeFileSync :: "thrown option"

text \<open>
  The \<open>try\<close> block of \<open>saveAnalytics\<close>, lines 85 to 90: it throws or writes the text.
  \<open>JSON.stringify\<close> is a parameter; it throws or returns the text.
\<close>

definition saveAnalyticsTry ::
  "(Analytics \<Rightarrow> thrown + string) \<Rightarrow> disk \<Rightarrow> Analytics \<Rightarrow> thrown + string" where
  "saveAnalyticsTry stringify d a =
     (case (if \<not> dirExists d then mkdirSync d else None) of
        Some e \<Rightarrow> Inl e
      | None \<Rightarrow>
          (case stringify a of
             Inl e \<Rightarrow> Inl e
           | Inr text \<Rightarrow> (case writeFileSync d of Some e \<Rightarrow> Inl e | None \<Rightarrow> Inr text)))"

text \<open>
  \<open>saveAnalytics\<close>, lines 84 to 94: the outcome for the caller (\<open>Inl\<close> would be an
  exception that leaves the function), the text written, if any, and the console lines.
\<close>

definition saveAnalytics ::
  "(Analytics \<Rightarrow> thrown + string) \<Rightarrow> disk \<Rightarrow> Analytics
     \<Rightarrow> (thrown + unit) \<times> string option \<times> string list" where
  "saveAnalytics stringify d a =
     (case saveAnalyticsTry stringify d a of
        Inl error \<Rightarrow> (Inr (), None, [''Could not save analytics file''])
      | Inr text \<Rightarrow> (Inr (), Some text, []))"

subsection \<open>Concrete states and environments\<close>

text \<open>The entries that a sequence of invocations puts on the recent-call list, oldest first.\<close>

fun toolCallEntries :: "invocation list \<Rightarrow> ToolCall list" where
  "toolCallEntries [] = []"
| "toolCallEntries (TrackRequest req endpoint now # ops) = toolCallEntries ops"
| "toolCallEntries (TrackToolCall toolName clientIp now # ops) =
     \<lparr>tc_tool = toolName, tc_timestamp = now, tc_clientIp = clientIp\<rparr> # toolCallEntries ops"

definition curl :: Request where
  "curl = \<lparr>req_method = ''POST'', req_forwardedFor = None, req_ip = Some ''1.2.3.4'',
           req_userAgent = Some ''curl/8.5.0''\<rparr>"

text \<open>
  Three requests to \<open>/mcp\<close>, each a tool call: twice the tool \<open>create_note\<close>, once a
  tool that the client names \<open>7\<close>.
\<close>

definition threeCalls :: "invocation list" where
  "threeCalls =
     [TrackRequest curl ''/mcp'' ''2026-01-01T10:00:00.000Z'',
      TrackToolCall ''create_note'' ''1.2.3.4'' ''2026-01-01T10:00:00.000Z'',
      TrackRequest curl ''/mcp'' ''2026-01-01T10:00:01.000Z'',
      TrackToolCall ''create_note'' ''1.2.3.4'' ''2026-01-01T10:00:01.000Z'',
      TrackRequest curl ''/mcp'' ''2026-01-01T10:00:02.000Z'',
      TrackToolCall ''7'' ''1.2.3.4'' ''2026-01-01T10:00:02.000Z'']"

definition afterThreeCalls :: Analytics where
  "afterThreeCalls = foldl invoke (defaultAnalytics ''2026-01-01T09:00:00.000Z'') threeCalls"

text \<open>A parser that rejects every text, and a disk that refuses to be written.\<close>

definition rejectAll :: "string \<Rightarrow> thrown + loaded" where
  "rejectAll data = Inl (Error ''Unexpected end of JSON input'')"

text \<open>A parser that knows the empty object, which is not of the shape of \<open>Analytics\<close>.\<close>

definition parseEmptyObject :: "string \<Rightarrow> thrown + loaded" where
  "parseEmptyObject data =
     (if data = ''{}'' then Inr (Other ''{}'')
      else Inl (Error ''Unexpected end of JSON input''))"

text \<open>
  A state in which the counter of \<open>/mcp\<close> and the total stand at \<open>2^53\<close>, as a snapshot
  file may hold them.
\<close>

definition saturated :: Analytics where
  "saturated =
     (defaultAnalytics ''2026-01-01T09:00:00.000Z'')
       \<lparr>totalRequests := 9007199254740992,
        requestsByEndpoint := [(''/mcp'', Num 9007199254740992)]\<rparr>"

definition readOnlyDisk :: disk where
  "readOnlyDisk = \<lparr>dirExists = True, mkdirSync = None,
                    writeFileSync = Some (Error ''EROFS: read-only file system'')\<rparr>"

definition plainText :: "Analytics \<Rightarrow> thrown + string" where
  "plainText a = Inr ''{}''"

section \<open>Properties of the conditional update\<close>

subsection \<open>Unfolding the recursion\<close>

lemma unwr_Suc:
  "updateNoteWithRetry mk s nid etag t c g (Suc n) =
     tryFormats mk (\<lambda>f. PUT nid f t c g) s (etagFormats etag) None"
  by (subst updateNoteWithRetry.simps) (auto split: prod.splits sum.splits)

lemma unwr_0:
  "updateNoteWithRetry mk s nid etag t c g 0 =
    (case tryFormats mk (\<lambda>f. PUT nid f t c g) s (etagFormats etag) None of
        (Inr n, s1, evs1) \<Rightarrow> (Inr n, s1, evs1)
      | (Inl error, s1, evs1) \<Rightarrow>
          if is412 error then
            (case mk s1 (GET nid) of
               (Inl refreshError, s2) \<Rightarrow>
                 (Inl error, s2, evs1 @ [(GET nid, Inl refreshError)])
             | (Inr freshNote, s2) \<Rightarrow>
                 (case tryFormats mk (\<lambda>f. PUT nid f t c g) s2 (etagFormats (note_etag freshNote)) None of
                    (r, s3, evs3) \<Rightarrow> (r, s3, evs1 @ [(GET nid, Inr freshNote)] @ evs3)))
          else (Inl error, s1, evs1))"
  by (subst updateNoteWithRetry.simps) (simp add: unwr_Suc split: prod.splits sum.splits)

subsection \<open>The loop over the encodings\<close>

lemma tf_length: "tryFormats mk req s fs le = (r, s', evs) \<Longrightarrow> length evs \<le> length fs"
  by (induction fs arbitrary: s le r s' evs) (auto split: option.splits prod.splits sum.splits if_splits)

lemma tf_requests:
  "tryFormats mk req s fs le = (r, s', evs) \<Longrightarrow> prefix (map fst evs) (map req fs)"
  by (induction fs arbitrary: s le r s' evs) (auto split: option.splits prod.splits sum.splits if_splits)

lemma tf_stop:
  "tryFormats mk req s fs le = (r, s', evs) \<Longrightarrow> i < length evs \<Longrightarrow> evs ! i = (q, x) \<Longrightarrow>
   (case x of Inr n \<Rightarrow> True | Inl e \<Rightarrow> \<not> is412 e) \<Longrightarrow> r = x \<and> Suc i = length evs"
proof (induction fs arbitrary: s le r s' evs i)
  case Nil
  then show ?case by (auto split: option.splits)
next
  case (Cons f fs)
  then show ?case
    by (cases i) (auto split: option.splits prod.splits sum.splits if_splits)
qed


lemma tf_all_PUT:
  "tryFormats mk (\<lambda>f. PUT nid f t c g) s fs le = (r, s', evs) \<Longrightarrow> list_all isPUT evs"
  by (induction fs arbitrary: s le r s' evs) (auto split: option.splits prod.splits sum.splits if_splits)

lemma tf_Cons_cases:
  assumes "tryFormats mk req s (f # fs) le = (r, s', evs)"
  obtains (ok) n where "mk s (req f) = (Inr n, s')" "r = Inr n" "evs = [(req f, Inr n)]"
  | (abort) e where "mk s (req f) = (Inl e, s')" "\<not> is412 e" "r = Inl e" "evs = [(req f, Inl e)]"
  | (retried) e s1 evs2 where "mk s (req f) = (Inl e, s1)" "is412 e"
      "tryFormats mk req s1 fs (Some e) = (r, s', evs2)" "evs = (req f, Inl e) # evs2"
  using assms by (auto split: prod.splits sum.splits if_splits)

lemma tf_result:
  "tryFormats mk req s fs le = (r, s', evs) \<Longrightarrow>
     r = (if evs = [] then (case le of None \<Rightarrow> Inl (NonError ''null'') | Some e \<Rightarrow> Inl e)
          else snd (last evs))"
proof (induction fs arbitrary: s le r s' evs)
  case Nil
  then show ?case by (auto split: option.splits)
next
  case (Cons f fs)
  from Cons.prems show ?case
  proof (cases rule: tf_Cons_cases)
    case (retried e s1 evs2)
    from Cons.IH[OF retried(3)] retried show ?thesis by auto
  qed auto
qed

lemma tf_412:
  "tryFormats mk req s fs le = (Inl e, s', evs) \<Longrightarrow> is412 e \<Longrightarrow> length evs = length fs"
  by (induction fs arbitrary: s le s' evs)
     (auto split: option.splits prod.splits sum.splits if_splits)

lemma tf_go_on:
  "tryFormats mk req s fs le = (r, s', evs) \<Longrightarrow> i < length evs \<Longrightarrow> evs ! i = (q, Inl e) \<Longrightarrow>
   is412 e \<Longrightarrow> Suc i < length evs \<or> (Suc i = length fs \<and> r = Inl e)"
proof (induction fs arbitrary: s le r s' evs i)
  case Nil
  then show ?case by (auto split: option.splits)
next
  case (Cons f fs)
  obtain x s1 where mk: "mk s (req f) = (x, s1)" by (cases "mk s (req f)")
  show ?case
  proof (cases x)
    case (Inr n)
    with Cons.prems mk show ?thesis by auto
  next
    case (Inl err)
    show ?thesis
    proof (cases "is412 err")
      case False
      with Cons.prems mk Inl show ?thesis by auto
    next
      case True
      obtain r2 s2 evs2 where rest: "tryFormats mk req s1 fs (Some err) = (r2, s2, evs2)"
        by (metis prod_cases3)
      with Cons.prems mk Inl True have evs: "evs = (req f, Inl err) # evs2" and r: "r = r2"
        by auto
      show ?thesis
      proof (cases i)
        case 0
        show ?thesis
        proof (cases evs2)
          case Nil
          with tf_result[OF rest] tf_length[OF rest] Cons.prems(3) evs r 0 rest
          show ?thesis by (cases fs) (auto split: prod.splits sum.splits if_splits)
        next
          case (Cons a list)
          with evs 0 show ?thesis by simp
        qed
      next
        case (Suc j)
        with Cons.prems evs have "j < length evs2" "evs2 ! j = (q, Inl e)" by auto
        from Cons.IH[OF rest this \<open>is412 e\<close>] evs r Suc show ?thesis by auto
      qed
    qed
  qed
qed

lemma tf_all_412:
  assumes "tryFormats mk req s fs le = (Inl e, s', evs)" "is412 e" "i < length evs"
  shows "\<exists>e'. evs ! i = (req (fs ! i), Inl e') \<and> is412 e'"
proof -
  obtain q x where ev: "evs ! i = (q, x)" by (cases "evs ! i")
  from tf_requests[OF assms(1)] assms(3) have "map fst evs ! i = map req fs ! i"
    by (metis length_map nth_take prefix_def append_eq_conv_conj)
  moreover from tf_length[OF assms(1)] assms(3) have "i < length fs" by simp
  ultimately have q: "q = req (fs ! i)" using ev assms(3) by simp
  have "\<not> (case x of Inr n \<Rightarrow> True | Inl e \<Rightarrow> \<not> is412 e)"
  proof
    assume h: "case x of Inr n \<Rightarrow> True | Inl e \<Rightarrow> \<not> is412 e"
    from tf_stop[OF assms(1) assms(3) ev h] have "x = Inl e" by simp
    with h assms(2) show False by simp
  qed
  then show ?thesis using ev q by (cases x) auto
qed

subsection \<open>The three shapes of a call\<close>

lemma updateNote_cases:
  assumes "updateNote mk s nid etag t c g = (r, s', evs)"
  obtains (direct)
      "tryFormats mk (\<lambda>f. PUT nid f t c g) s (etagFormats etag) None = (r, s', evs)"
      "\<And>e. r = Inl e \<Longrightarrow> \<not> is412 e"
  | (refetch_failed) e s1 evs1 re where
      "tryFormats mk (\<lambda>f. PUT nid f t c g) s (etagFormats etag) None = (Inl e, s1, evs1)"
      "is412 e" "mk s1 (GET nid) = (Inl re, s')" "r = Inl e"
      "evs = evs1 @ [(GET nid, Inl re)]"
  | (retried) e s1 evs1 fresh s2 evs3 where
      "tryFormats mk (\<lambda>f. PUT nid f t c g) s (etagFormats etag) None = (Inl e, s1, evs1)"
      "is412 e" "mk s1 (GET nid) = (Inr fresh, s2)"
      "tryFormats mk (\<lambda>f. PUT nid f t c g) s2 (etagFormats (note_etag fresh)) None = (r, s', evs3)"
      "evs = evs1 @ [(GET nid, Inr fresh)] @ evs3"
  using assms unfolding updateNote_def unwr_0
  by (auto split: prod.splits sum.splits if_splits)

subsection \<open>Errors other than precondition failures\<close>

text \<open>
  Claim C1. In a conditional update, an error of an update request that is not a
  precondition failure (it fails the 412 test) goes to the caller at once: whichever update
  request of whichever attempt raised it, that same error is the outcome of the call and
  the request is the last one sent; no further encoding is tried, the note is not fetched
  again and there is no recursion.
\<close>

theorem updateNote_other_error_propagates:
  assumes run: "updateNote mk s nid etag t c g = (r, s', evs)"
    and i: "i < length evs"
    and ev: "evs ! i = (PUT n f t' c' g', Inl e)"
    and e: "\<not> is412 e"
  shows "r = Inl e \<and> Suc i = length evs"
  using run
proof (cases rule: updateNote_cases)
  case direct
  from tf_stop[OF direct(1) i ev] e show ?thesis by simp
next
  case (refetch_failed e1 s1 evs1 re)
  have "i < length evs1"
    using i ev refetch_failed(5) by (cases "i = length evs1") (auto simp: nth_append)
  from tf_all_412[OF refetch_failed(1,2) this] ev e refetch_failed(5) \<open>i < length evs1\<close>
  show ?thesis by (auto simp: nth_append)
next
  case (retried e1 s1 evs1 fresh s2 evs3)
  show ?thesis
  proof (cases "i < length evs1")
    case True
    from tf_all_412[OF retried(1,2) this] ev e retried(5) True
    show ?thesis by (auto simp: nth_append)
  next
    case False
    with retried(5) ev have "i \<noteq> length evs1" by (auto simp: nth_append)
    with False obtain j where j: "i = Suc (length evs1 + j)"
      by (metis le_neq_implies_less less_iff_Suc_add not_less)
    with retried(5) i ev have "j < length evs3" "evs3 ! j = (PUT n f t' c' g', Inl e)"
      by (auto simp: nth_append)
    with tf_stop[OF retried(4), of j _ "Inl e"] e have "r = Inl e" "Suc j = length evs3" by auto
    with j retried(5) show ?thesis by simp
  qed
qed


lemma failingScript_run:
  "updateNote scripted failingScript 7 ''t0'' None (Some ''y'') None =
     (Inl (Error ''Request failed with status code 500''), [],
      [(PUT 7 ''t0'' None (Some ''y'') None, Inl (Error ''Request failed with status code 412'')),
       (PUT 7 ([dquote] @ ''t0'' @ [dquote]) None (Some ''y'') None,
          Inl (Error ''Request failed with status code 500''))])"
  by (simp add: updateNote_def unwr_0 etagFormats_def scripted_def failingScript_def)

text \<open>
  Witness: the first encoding is refused with a 412 error, the second fails with status
  500; the call ends there with that error.
\<close>

theorem updateNote_other_error_propagates_witness:
  "\<not> is412 (Error ''Request failed with status code 500'')
   \<and> fst (updateNote scripted failingScript 7 ''t0'' None (Some ''y'') None)
       = Inl (Error ''Request failed with status code 500'')
   \<and> Suc 1 = length (events (updateNote scripted failingScript 7 ''t0'' None (Some ''y'') None))"
proof -
  have e: "\<not> is412 (Error ''Request failed with status code 500'')" by simp
  have ev: "[(PUT 7 ''t0'' None (Some ''y'') None, Inl (Error ''Request failed with status code 412'')),
       (PUT 7 ([dquote] @ ''t0'' @ [dquote]) None (Some ''y'') None,
          Inl (Error ''Request failed with status code 500''))] ! 1
     = (PUT 7 ([dquote] @ ''t0'' @ [dquote]) None (Some ''y'') None,
          Inl (Error ''Request failed with status code 500''))"
    by simp
  from updateNote_other_error_propagates[OF failingScript_run _ ev e] e
  show ?thesis by (simp add: failingScript_run events_def)
qed

subsection \<open>The order of the encodings\<close>

lemma length_etagFormats3: "length (etagFormats etag) = 3"
  by (simp add: etagFormats_def)

lemma takeWhile_isPUT_append_GET:
  "list_all isPUT xs \<Longrightarrow> takeWhile isPUT (xs @ (GET n, x) # ys) = xs"
  by (induction xs) auto

lemma takeWhile_isPUT_all: "list_all isPUT xs \<Longrightarrow> takeWhile isPUT xs = xs"
  by (induction xs) auto

lemma updateNote_first_attempt:
  assumes "updateNote mk s nid etag t c g = (r, s', evs)"
  shows "\<exists>r1 s1. tryFormats mk (\<lambda>f. PUT nid f t c g) s (etagFormats etag) None
            = (r1, s1, takeWhile isPUT evs)"
  using assms
proof (cases rule: updateNote_cases)
  case direct
  from tf_all_PUT[OF direct(1)] direct(1) show ?thesis
    by (simp add: takeWhile_isPUT_all)
next
  case (refetch_failed e s1 evs1 re)
  from tf_all_PUT[OF refetch_failed(1)] refetch_failed show ?thesis
    by (simp add: takeWhile_isPUT_append_GET)
next
  case (retried e s1 evs1 fresh s2 evs3)
  from tf_all_PUT[OF retried(1)] retried show ?thesis
    by (simp add: takeWhile_isPUT_append_GET)
qed

lemma updateNote_success_last:
  assumes run: "updateNote mk s nid etag t c g = (r, s', evs)"
    and i: "i < length evs" and ev: "evs ! i = (PUT n f t' c' g', Inr x)"
  shows "r = Inr x \<and> Suc i = length evs"
  using run
proof (cases rule: updateNote_cases)
  case direct
  from tf_stop[OF direct(1) i ev] show ?thesis by simp
next
  case (refetch_failed e1 s1 evs1 re)
  have "i < length evs1"
    using i ev refetch_failed(5) by (cases "i = length evs1") (auto simp: nth_append)
  from tf_all_412[OF refetch_failed(1,2) this] ev refetch_failed(5) \<open>i < length evs1\<close>
  show ?thesis by (auto simp: nth_append)
next
  case (retried e1 s1 evs1 fresh s2 evs3)
  show ?thesis
  proof (cases "i < length evs1")
    case True
    from tf_all_412[OF retried(1,2) this] ev retried(5) True
    show ?thesis by (auto simp: nth_append)
  next
    case False
    with retried(5) ev have "i \<noteq> length evs1" by (auto simp: nth_append)
    with False obtain j where j: "i = Suc (length evs1 + j)"
      by (metis le_neq_implies_less less_iff_Suc_add not_less)
    with retried(5) i ev have "j < length evs3" "evs3 ! j = (PUT n f t' c' g', Inr x)"
      by (auto simp: nth_append)
    with tf_stop[OF retried(4), of j _ "Inr x"] have "r = Inr x" "Suc j = length evs3" by auto
    with j retried(5) show ?thesis by simp
  qed
qed

lemma updateNote_quoted_accepted:
  assumes "mk s (PUT nid etag t c g) = (Inl e, s1)" "is412 e"
    and "mk s1 (PUT nid ([dquote] @ etag @ [dquote]) t c g) = (Inr x, s2)"
  shows "updateNote mk s nid etag t c g =
           (Inr x, s2, [(PUT nid etag t c g, Inl e),
                        (PUT nid ([dquote] @ etag @ [dquote]) t c g, Inr x)])"
  using assms by (simp add: updateNote_def unwr_0 etagFormats_def)

lemma PUTs_no_GET: "list_all isPUT xs \<Longrightarrow> (GET n, x) \<notin> set xs"
  by (induction xs) auto

lemma updateNote_second_attempt:
  assumes run: "updateNote mk s nid etag t c g = (r, s', evs)"
    and get: "(GET n, Inr fresh) \<in> set evs"
  shows "prefix (map fst (drop (Suc (length (takeWhile isPUT evs))) evs))
           (map (\<lambda>f. PUT nid f t c g) (etagFormats (note_etag fresh)))"
  using run
proof (cases rule: updateNote_cases)
  case direct
  from tf_all_PUT[OF direct(1)] get show ?thesis by (simp add: PUTs_no_GET)
next
  case (refetch_failed e s1 evs1 re)
  from tf_all_PUT[OF refetch_failed(1)] get refetch_failed(5) show ?thesis
    by (simp add: PUTs_no_GET)
next
  case (retried e s1 evs1 fresh' s2 evs3)
  from tf_all_PUT[OF retried(1)] tf_all_PUT[OF retried(4)] get retried(5)
  have "fresh' = fresh" by (auto simp: PUTs_no_GET)
  moreover from tf_all_PUT[OF retried(1)] retried(5)
  have "takeWhile isPUT evs = evs1" by (simp add: takeWhile_isPUT_append_GET)
  ultimately show ?thesis using tf_requests[OF retried(4)] retried(5) by simp
qed

lemma tf_nth_request:
  assumes "tryFormats mk req s fs le = (r, s', evs)" "i < length evs"
  shows "fst (evs ! i) = req (fs ! i)"
proof -
  from tf_requests[OF assms(1)] obtain zs where "map req fs = map fst evs @ zs"
    by (auto simp: prefix_def)
  then have "map req fs ! i = map fst evs ! i" using assms(2) by (simp add: nth_append)
  moreover from tf_length[OF assms(1)] assms(2) have "i < length fs" by simp
  ultimately show ?thesis using assms(2) by simp
qed

lemma tf_nonempty:
  "tryFormats mk req s (f # fs) le = (r, s', evs) \<Longrightarrow> evs \<noteq> []"
  by (auto split: prod.splits sum.splits if_splits)

lemma tf_next:
  assumes run: "tryFormats mk req s fs le = (r, s', evs)"
    and i: "i < length evs" and ev: "snd (evs ! i) = Inl e" and e: "is412 e"
    and more: "Suc i < length fs"
  shows "Suc i < length evs \<and> fst (evs ! Suc i) = req (fs ! Suc i)"
proof -
  obtain q where "evs ! i = (q, Inl e)" using ev by (cases "evs ! i") simp
  from tf_go_on[OF run i this e] more have n: "Suc i < length evs" by simp
  with tf_nth_request[OF run n] show ?thesis by simp
qed

lemma tf_first:
  assumes run: "tryFormats mk req s (f # fs) le = (r, s', evs)"
  shows "0 < length evs \<and> fst (evs ! 0) = req f"
proof -
  from tf_nonempty[OF run] have n: "0 < length evs" by simp
  with tf_nth_request[OF run n] show ?thesis by simp
qed

lemma etagFormats_nth:
  "etagFormats etag = etag # [[dquote] @ etag @ [dquote], filter (\<lambda>ch. ch \<noteq> dquote) etag]"
  by (simp add: etagFormats_def)

lemma updateNote_progress_first:
  assumes run: "updateNote mk s nid etag t c g = (r, s', evs)"
  shows "0 < length evs \<and> fst (evs ! 0) = PUT nid etag t c g
       \<and> (\<forall>e. snd (evs ! 0) = Inl e \<and> is412 e \<longrightarrow>
             1 < length evs \<and> fst (evs ! 1) = PUT nid ([dquote] @ etag @ [dquote]) t c g)
       \<and> (\<forall>e. 1 < length evs \<and> snd (evs ! 1) = Inl e \<and> is412 e \<longrightarrow>
             2 < length evs
             \<and> fst (evs ! 2) = PUT nid (filter (\<lambda>ch. ch \<noteq> dquote) etag) t c g)"
proof -
  have main: "0 < length evs1 \<and> fst (evs1 ! 0) = PUT nid etag t c g
       \<and> (\<forall>e. snd (evs1 ! 0) = Inl e \<and> is412 e \<longrightarrow>
             1 < length evs1 \<and> fst (evs1 ! 1) = PUT nid ([dquote] @ etag @ [dquote]) t c g)
       \<and> (\<forall>e. 1 < length evs1 \<and> snd (evs1 ! 1) = Inl e \<and> is412 e \<longrightarrow>
             2 < length evs1
             \<and> fst (evs1 ! 2) = PUT nid (filter (\<lambda>ch. ch \<noteq> dquote) etag) t c g)"
    if t1: "tryFormats mk (\<lambda>f. PUT nid f t c g) s (etagFormats etag) None = (r1, s1, evs1)"
    for r1 s1 evs1
  proof (intro conjI allI impI)
    from tf_first[OF t1[unfolded etagFormats_nth]]
    show "0 < length evs1" "fst (evs1 ! 0) = PUT nid etag t c g" by simp_all
  next
    fix e assume a: "snd (evs1 ! 0) = Inl e \<and> is412 e"
    from tf_first[OF t1[unfolded etagFormats_nth]] have "0 < length evs1" by simp
    from tf_next[OF t1 this, of e] a
    show "1 < length evs1" "fst (evs1 ! 1) = PUT nid ([dquote] @ etag @ [dquote]) t c g"
      by (simp_all add: etagFormats_def)
  next
    fix e assume a: "1 < length evs1 \<and> snd (evs1 ! 1) = Inl e \<and> is412 e"
    from tf_next[OF t1, of 1 e] a
    show "2 < length evs1"
      "fst (evs1 ! 2) = PUT nid (filter (\<lambda>ch. ch \<noteq> dquote) etag) t c g"
      by (simp_all add: etagFormats_def numeral_2_eq_2)
  qed
  from run show ?thesis
  proof (cases rule: updateNote_cases)
    case direct
    from main[OF direct(1)] show ?thesis .
  next
    case (refetch_failed e s1 evs1 re)
    from tf_412[OF refetch_failed(1,2)] have l: "length evs1 = 3"
      by (simp add: length_etagFormats3)
    from main[OF refetch_failed(1)] l show ?thesis
      by (simp add: refetch_failed(5) nth_append)
  next
    case (retried e s1 evs1 fresh s2 evs3)
    from tf_412[OF retried(1,2)] have l: "length evs1 = 3"
      by (simp add: length_etagFormats3)
    from main[OF retried(1)] l show ?thesis
      by (simp add: retried(5) nth_append)
  qed
qed

lemma updateNote_progress_second:
  assumes run: "updateNote mk s nid etag t c g = (r, s', evs)"
    and get: "(GET n, Inr fresh) \<in> set evs"
  shows "4 < length evs \<and> evs ! 3 = (GET nid, Inr fresh)
       \<and> fst (evs ! 4) = PUT nid (note_etag fresh) t c g
       \<and> (\<forall>e. snd (evs ! 4) = Inl e \<and> is412 e \<longrightarrow>
             5 < length evs
             \<and> fst (evs ! 5) = PUT nid ([dquote] @ note_etag fresh @ [dquote]) t c g)
       \<and> (\<forall>e. 5 < length evs \<and> snd (evs ! 5) = Inl e \<and> is412 e \<longrightarrow>
             6 < length evs
             \<and> fst (evs ! 6) = PUT nid (filter (\<lambda>ch. ch \<noteq> dquote) (note_etag fresh)) t c g)"
  using run
proof (cases rule: updateNote_cases)
  case direct
  from tf_all_PUT[OF direct(1)] get show ?thesis by (simp add: PUTs_no_GET)
next
  case (refetch_failed e s1 evs1 re)
  from tf_all_PUT[OF refetch_failed(1)] get refetch_failed(5) show ?thesis
    by (simp add: PUTs_no_GET)
next
  case (retried e s1 evs1 fresh' s2 evs3)
  from tf_all_PUT[OF retried(1)] tf_all_PUT[OF retried(4)] get retried(5)
  have fr: "fresh' = fresh" by (auto simp: PUTs_no_GET)
  from tf_412[OF retried(1,2)] have l: "length evs1 = 3"
    by (simp add: length_etagFormats3)
  note t3 = retried(4)[unfolded fr]
  have nth: "evs ! (4 + j) = evs3 ! j" for j
    using l by (simp add: retried(5) nth_append)
  have len: "length evs = 4 + length evs3" using l by (simp add: retried(5))
  have A: "0 < length evs3 \<and> fst (evs3 ! 0) = PUT nid (note_etag fresh) t c g"
    using tf_first[OF t3[unfolded etagFormats_nth]] by simp
  have B: "1 < length evs3 \<and> fst (evs3 ! 1) = PUT nid ([dquote] @ note_etag fresh @ [dquote]) t c g"
    if "snd (evs3 ! 0) = Inl e'" "is412 e'" for e'
    using tf_next[OF t3, of 0 e'] A that by (simp add: etagFormats_def)
  have C: "2 < length evs3
           \<and> fst (evs3 ! 2) = PUT nid (filter (\<lambda>ch. ch \<noteq> dquote) (note_etag fresh)) t c g"
    if "1 < length evs3" "snd (evs3 ! 1) = Inl e'" "is412 e'" for e'
    using tf_next[OF t3, of 1 e'] that by (simp add: etagFormats_def numeral_2_eq_2)
  have g3: "evs ! 3 = (GET nid, Inr fresh)" using l fr by (simp add: retried(5) nth_append)
  from A B C g3 nth[of 0] nth[of 1] nth[of 2] len show ?thesis by auto
qed

text \<open>
  Claim C2. Every conditional update sends the tag as given first; after a 412 answer to
  it, the tag in double quotes; after a 412 answer to that, the tag without its double
  quotes. The update requests of the first attempt are these and no other, in this order;
  after a fetch the same holds for the tag of the fetched note. An update request that
  succeeds is the last request and its note is the result. Against a service that refuses
  the raw tag with a 412 error and accepts the quoted tag, the call succeeds with exactly
  these two requests, without a fetch.
\<close>

theorem updateNote_encoding_order:
  assumes run: "updateNote mk s nid etag t c g = (r, s', evs)"
  shows "(0 < length evs \<and> fst (evs ! 0) = PUT nid etag t c g
          \<and> (\<forall>e. snd (evs ! 0) = Inl e \<and> is412 e \<longrightarrow>
                1 < length evs \<and> fst (evs ! 1) = PUT nid ([dquote] @ etag @ [dquote]) t c g)
          \<and> (\<forall>e. 1 < length evs \<and> snd (evs ! 1) = Inl e \<and> is412 e \<longrightarrow>
                2 < length evs
                \<and> fst (evs ! 2) = PUT nid (filter (\<lambda>ch. ch \<noteq> dquote) etag) t c g))
       \<and> prefix (map fst (takeWhile isPUT evs))
           [PUT nid etag t c g,
            PUT nid ([dquote] @ etag @ [dquote]) t c g,
            PUT nid (filter (\<lambda>ch. ch \<noteq> dquote) etag) t c g]
       \<and> (\<forall>n fresh. (GET n, Inr fresh) \<in> set evs \<longrightarrow>
              4 < length evs \<and> evs ! 3 = (GET nid, Inr fresh)
              \<and> fst (evs ! 4) = PUT nid (note_etag fresh) t c g
              \<and> (\<forall>e. snd (evs ! 4) = Inl e \<and> is412 e \<longrightarrow>
                    5 < length evs
                    \<and> fst (evs ! 5) = PUT nid ([dquote] @ note_etag fresh @ [dquote]) t c g)
              \<and> (\<forall>e. 5 < length evs \<and> snd (evs ! 5) = Inl e \<and> is412 e \<longrightarrow>
                    6 < length evs
                    \<and> fst (evs ! 6)
                        = PUT nid (filter (\<lambda>ch. ch \<noteq> dquote) (note_etag fresh)) t c g))
       \<and> (\<forall>n fresh. (GET n, Inr fresh) \<in> set evs \<longrightarrow>
              prefix (map fst (drop (Suc (length (takeWhile isPUT evs))) evs))
                [PUT nid (note_etag fresh) t c g,
                 PUT nid ([dquote] @ note_etag fresh @ [dquote]) t c g,
                 PUT nid (filter (\<lambda>ch. ch \<noteq> dquote) (note_etag fresh)) t c g])
       \<and> (\<forall>i n f t' c' g' x. i < length evs \<and> evs ! i = (PUT n f t' c' g', Inr x)
              \<longrightarrow> r = Inr x \<and> Suc i = length evs)
       \<and> (\<forall>e s1 x s2. mk s (PUT nid etag t c g) = (Inl e, s1) \<and> is412 e
              \<and> mk s1 (PUT nid ([dquote] @ etag @ [dquote]) t c g) = (Inr x, s2)
              \<longrightarrow> r = Inr x \<and> s' = s2
                \<and> evs = [(PUT nid etag t c g, Inl e),
                         (PUT nid ([dquote] @ etag @ [dquote]) t c g, Inr x)])"
proof -
  note A = updateNote_progress_first[OF run]
  from updateNote_first_attempt[OF run] obtain r1 s1 where
    "tryFormats mk (\<lambda>f. PUT nid f t c g) s (etagFormats etag) None = (r1, s1, takeWhile isPUT evs)"
    by blast
  from tf_requests[OF this]
  have B: "prefix (map fst (takeWhile isPUT evs))
           [PUT nid etag t c g, PUT nid ([dquote] @ etag @ [dquote]) t c g,
            PUT nid (filter (\<lambda>ch. ch \<noteq> dquote) etag) t c g]"
    by (simp add: etagFormats_def)
  have C: "\<forall>n fresh. (GET n, Inr fresh) \<in> set evs \<longrightarrow>
              4 < length evs \<and> evs ! 3 = (GET nid, Inr fresh)
              \<and> fst (evs ! 4) = PUT nid (note_etag fresh) t c g
              \<and> (\<forall>e. snd (evs ! 4) = Inl e \<and> is412 e \<longrightarrow>
                    5 < length evs
                    \<and> fst (evs ! 5) = PUT nid ([dquote] @ note_etag fresh @ [dquote]) t c g)
              \<and> (\<forall>e. 5 < length evs \<and> snd (evs ! 5) = Inl e \<and> is412 e \<longrightarrow>
                    6 < length evs
                    \<and> fst (evs ! 6)
                        = PUT nid (filter (\<lambda>ch. ch \<noteq> dquote) (note_etag fresh)) t c g)"
    using updateNote_progress_second[OF run] by blast
  have D: "\<forall>n fresh. (GET n, Inr fresh) \<in> set evs \<longrightarrow>
              prefix (map fst (drop (Suc (length (takeWhile isPUT evs))) evs))
                [PUT nid (note_etag fresh) t c g,
                 PUT nid ([dquote] @ note_etag fresh @ [dquote]) t c g,
                 PUT nid (filter (\<lambda>ch. ch \<noteq> dquote) (note_etag fresh)) t c g]"
    using updateNote_second_attempt[OF run] by (simp add: etagFormats_def)
  have E: "\<forall>i n f t' c' g' x. i < length evs \<and> evs ! i = (PUT n f t' c' g', Inr x)
              \<longrightarrow> r = Inr x \<and> Suc i = length evs"
    using updateNote_success_last[OF run] by blast
  have F: "\<forall>e s1 x s2. mk s (PUT nid etag t c g) = (Inl e, s1) \<and> is412 e
              \<and> mk s1 (PUT nid ([dquote] @ etag @ [dquote]) t c g) = (Inr x, s2)
              \<longrightarrow> r = Inr x \<and> s' = s2
                \<and> evs = [(PUT nid etag t c g, Inl e),
                         (PUT nid ([dquote] @ etag @ [dquote]) t c g, Inr x)]"
  proof (intro allI impI)
    fix e s1 x s2
    assume "mk s (PUT nid etag t c g) = (Inl e, s1) \<and> is412 e
              \<and> mk s1 (PUT nid ([dquote] @ etag @ [dquote]) t c g) = (Inr x, s2)"
    with updateNote_quoted_accepted[of mk s nid etag t c g e s1 x s2] run
    show "r = Inr x \<and> s' = s2 \<and> evs = [(PUT nid etag t c g, Inl e),
                         (PUT nid ([dquote] @ etag @ [dquote]) t c g, Inr x)]"
      by simp
  qed
  show ?thesis
    apply (rule conjI, rule A)
    apply (rule conjI, rule B)
    apply (rule conjI, rule C)
    apply (rule conjI, rule D)
    apply (rule conjI, rule E)
    apply (rule F)
    done
qed

lemma quotedOnly_run:
  "updateNote quotedOnly () 7 ''t0'' None (Some ''y'') None =
     (Inr (note7 ''y'' ''t1''), (),
      [(PUT 7 ''t0'' None (Some ''y'') None, Inl (Error ''Request failed with status code 412'')),
       (PUT 7 ([dquote] @ ''t0'' @ [dquote]) None (Some ''y'') None, Inr (note7 ''y'' ''t1''))])"
  by (simp add: updateNote_def unwr_0 etagFormats_def quotedOnly_def dquote_def)

lemma strippedOnly_run:
  "updateNote strippedOnly () 7 weakTag None (Some ''y'') None =
     (Inr (note7 ''y'' ''t1''), (),
      [(PUT 7 weakTag None (Some ''y'') None, Inl (Error ''Request failed with status code 412'')),
       (PUT 7 ([dquote] @ weakTag @ [dquote]) None (Some ''y'') None,
          Inl (Error ''Request failed with status code 412'')),
       (PUT 7 ''W/t0'' None (Some ''y'') None, Inr (note7 ''y'' ''t1''))])"
  by (simp add: updateNote_def unwr_0 etagFormats_def strippedOnly_def dquote_def weakTag_def)


text \<open>
  Witnesses: a service that accepts the quoted tag only, where the call ends with the
  second request, and a service that accepts only the tag without its quotes, where the
  third request is sent and carries \<open>W/t0\<close>.
\<close>

theorem updateNote_encoding_order_witness:
  "updateNote quotedOnly () 7 ''t0'' None (Some ''y'') None =
     (Inr (note7 ''y'' ''t1''), (),
      [(PUT 7 ''t0'' None (Some ''y'') None, Inl (Error ''Request failed with status code 412'')),
       (PUT 7 ([dquote] @ ''t0'' @ [dquote]) None (Some ''y'') None, Inr (note7 ''y'' ''t1''))])
   \<and> is412 (Error ''Request failed with status code 412'')
   \<and> events (updateNote strippedOnly () 7 weakTag None (Some ''y'') None) ! 2
       = (PUT 7 ''W/t0'' None (Some ''y'') None, Inr (note7 ''y'' ''t1''))
   \<and> filter (\<lambda>ch. ch \<noteq> dquote) weakTag = ''W/t0''
   \<and> fst (updateNote strippedOnly () 7 weakTag None (Some ''y'') None) = Inr (note7 ''y'' ''t1'')"
proof -
  have a: "is412 (Error ''Request failed with status code 412'')" by simp
  have b: "filter (\<lambda>ch. ch \<noteq> dquote) weakTag = ''W/t0''"
    by (simp add: weakTag_def dquote_def)
  note third = updateNote_encoding_order[OF strippedOnly_run, THEN conjunct1, THEN conjunct2,
                 THEN conjunct2, THEN conjunct2, rule_format,
                 of "Error ''Request failed with status code 412''"]
  have "fst ([(PUT 7 weakTag None (Some ''y'') None,
                Inl (Error ''Request failed with status code 412'')),
              (PUT 7 ([dquote] @ weakTag @ [dquote]) None (Some ''y'') None,
                Inl (Error ''Request failed with status code 412'')),
              (PUT 7 ''W/t0'' None (Some ''y'') None, Inr (note7 ''y'' ''t1''))] ! 2)
          = PUT 7 (filter (\<lambda>ch. ch \<noteq> dquote) weakTag) None (Some ''y'') None"
    by (rule third[THEN conjunct2]) simp
  with a b show ?thesis by (simp add: quotedOnly_run strippedOnly_run events_def)
qed

subsection \<open>Bounds on the requests\<close>

lemma tf_bounded:
  "list_all isPUT (events (tryFormats mk (\<lambda>f. PUT nid f t c g) s fs le))
   \<and> length (events (tryFormats mk (\<lambda>f. PUT nid f t c g) s fs le)) \<le> length fs"
proof -
  obtain r s' evs where run: "tryFormats mk (\<lambda>f. PUT nid f t c g) s fs le = (r, s', evs)"
    by (metis prod_cases3)
  from tf_all_PUT[OF run] tf_length[OF run] run show ?thesis by (simp add: events_def)
qed

lemma isGET_iff: "isGET ev = (\<not> isPUT ev)"
  by (cases ev rule: isPUT.cases) auto

lemma filter_isGET_PUTs: "list_all isPUT xs \<Longrightarrow> filter isGET xs = []"
  by (induction xs) (auto simp: isGET_iff)

lemma filter_isPUT_PUTs: "list_all isPUT xs \<Longrightarrow> filter isPUT xs = xs"
  by (induction xs) auto

lemma updateNote_shape:
  "\<exists>a1 rf a2. events (updateNote mk s nid etag t c g) = a1 @ rf @ a2
      \<and> list_all isPUT a1 \<and> length a1 \<le> 3
      \<and> list_all isGET rf \<and> length rf \<le> 1
      \<and> list_all isPUT a2 \<and> length a2 \<le> 3"
proof -
  obtain r s' evs where run: "updateNote mk s nid etag t c g = (r, s', evs)"
    by (metis prod_cases3)
  from run show ?thesis
  proof (cases rule: updateNote_cases)
    case direct
    from tf_all_PUT[OF direct(1)] tf_length[OF direct(1)]
    have "evs = evs @ [] @ [] \<and> list_all isPUT evs \<and> length evs \<le> 3
           \<and> list_all isGET [] \<and> length ([]::event list) \<le> 1
           \<and> list_all isPUT [] \<and> length ([]::event list) \<le> 3"
      by (simp add: length_etagFormats3)
    with run show ?thesis unfolding events_def by (metis snd_conv)
  next
    case (refetch_failed e s1 evs1 re)
    from tf_all_PUT[OF refetch_failed(1)] tf_length[OF refetch_failed(1)] refetch_failed(5)
    have "evs = evs1 @ [(GET nid, Inl re)] @ [] \<and> list_all isPUT evs1 \<and> length evs1 \<le> 3
           \<and> list_all isGET [(GET nid, Inl re)] \<and> length [(GET nid, Inl re)] \<le> 1
           \<and> list_all isPUT [] \<and> length ([]::event list) \<le> 3"
      by (simp add: length_etagFormats3)
    with run show ?thesis unfolding events_def by (metis snd_conv)
  next
    case (retried e s1 evs1 fresh s2 evs3)
    from tf_all_PUT[OF retried(1)] tf_length[OF retried(1)]
         tf_all_PUT[OF retried(4)] tf_length[OF retried(4)] retried(5)
    have "evs = evs1 @ [(GET nid, Inr fresh)] @ evs3 \<and> list_all isPUT evs1 \<and> length evs1 \<le> 3
           \<and> list_all isGET [(GET nid, Inr fresh)] \<and> length [(GET nid, Inr fresh)] \<le> 1
           \<and> list_all isPUT evs3 \<and> length evs3 \<le> 3"
      by (simp add: length_etagFormats3)
    with run show ?thesis unfolding events_def by (metis snd_conv)
  qed
qed

lemma filter_isPUT_GETs: "list_all isGET xs \<Longrightarrow> filter isPUT xs = []"
  by (induction xs) (auto simp: isGET_iff)

lemma filter_isGET_GETs: "list_all isGET xs \<Longrightarrow> filter isGET xs = xs"
  by (induction xs) auto

text \<open>
  Claim C3. Whatever the service answers, the requests of a conditional update are at most
  three update requests, then at most one fetch, then at most three update requests: at
  most six update requests and one fetch in all. A call whose retry counter is not zero
  sends at most three update requests and no fetch, so the recursion, which passes the
  counter 1, ends there.
\<close>

theorem updateNote_bounded:
  "(\<exists>a1 rf a2. events (updateNote mk s nid etag t c g) = a1 @ rf @ a2
      \<and> list_all isPUT a1 \<and> length a1 \<le> 3
      \<and> list_all isGET rf \<and> length rf \<le> 1
      \<and> list_all isPUT a2 \<and> length a2 \<le> 3)
   \<and> length (filter isPUT (events (updateNote mk s nid etag t c g))) \<le> 6
   \<and> length (filter isGET (events (updateNote mk s nid etag t c g))) \<le> 1
   \<and> list_all isPUT (events (updateNoteWithRetry mk s nid etag t c g (Suc k)))
   \<and> length (events (updateNoteWithRetry mk s nid etag t c g (Suc k))) \<le> 3"
proof -
  from updateNote_shape[of mk s nid etag t c g] obtain a1 rf a2 where
    sh: "events (updateNote mk s nid etag t c g) = a1 @ rf @ a2"
      "list_all isPUT a1" "length a1 \<le> 3" "list_all isGET rf" "length rf \<le> 1"
      "list_all isPUT a2" "length a2 \<le> 3"
    by blast
  then have "length (filter isPUT (events (updateNote mk s nid etag t c g))) \<le> 6"
    "length (filter isGET (events (updateNote mk s nid etag t c g))) \<le> 1"
    by (simp_all add: filter_isPUT_PUTs filter_isGET_PUTs filter_isPUT_GETs filter_isGET_GETs)
  moreover from tf_bounded[where mk=mk and s=s and nid=nid and t=t and c=c and g=g and fs="etagFormats etag" and le=None]
  have "list_all isPUT (events (updateNoteWithRetry mk s nid etag t c g (Suc k)))"
    "length (events (updateNoteWithRetry mk s nid etag t c g (Suc k))) \<le> 3"
    by (simp_all add: unwr_Suc length_etagFormats3)
  ultimately show ?thesis using updateNote_shape[of mk s nid etag t c g] by blast
qed

lemma contended_run:
  "updateNote contended 0 7 ''v1'' None (Some ''z'') None =
     (Inl (Error ''412 Precondition Failed, current etag is v4''), 7,
      [(PUT 7 ''v1'' None (Some ''z'') None, Inl (Error ''412 Precondition Failed, current etag is v2'')),
       (PUT 7 ([dquote] @ ''v1'' @ [dquote]) None (Some ''z'') None,
          Inl (Error ''412 Precondition Failed, current etag is v2'')),
       (PUT 7 ''v1'' None (Some ''z'') None, Inl (Error ''412 Precondition Failed, current etag is v2'')),
       (GET 7, Inr (note7 ''x'' ''v3'')),
       (PUT 7 ''v3'' None (Some ''z'') None, Inl (Error ''412 Precondition Failed, current etag is v4'')),
       (PUT 7 ([dquote] @ ''v3'' @ [dquote]) None (Some ''z'') None,
          Inl (Error ''412 Precondition Failed, current etag is v4'')),
       (PUT 7 ''v3'' None (Some ''z'') None, Inl (Error ''412 Precondition Failed, current etag is v4''))])"
  by (simp add: updateNote_def unwr_0 etagFormats_def contended_def dquote_def note7_def)


text \<open>
  The bound is reached: against a service that refuses every update with a 412 error the
  call sends six update requests and one fetch.
\<close>

theorem updateNote_bounded_witness:
  "length (filter isPUT (events (updateNote contended 0 7 ''v1'' None (Some ''z'') None))) = 6
   \<and> length (filter isGET (events (updateNote contended 0 7 ''v1'' None (Some ''z'') None))) = 1
   \<and> length (filter isPUT (events (updateNote contended 0 7 ''v1'' None (Some ''z'') None))) \<le> 6"
  using updateNote_bounded[of contended 0 7 "''v1''" None "Some ''z''" None]
  by (simp add: contended_run events_def)

subsection \<open>The 412 test\<close>

lemma includesStr_iff: "includesStr m sub \<longleftrightarrow> (\<exists>p q. m = p @ sub @ q)"
proof -
  have "includesStr m sub = sublist sub m"
    by (induction m) (simp_all add: sublist_Cons_right)
  then show ?thesis by (simp add: sublist_def)
qed

lemma is412_iff: "is412 e \<longleftrightarrow> (\<exists>m p q. e = Error m \<and> m = p @ ''412'' @ q)"
  by (cases e) (simp_all add: includesStr_iff)

lemma updateNote_last_error:
  assumes run: "updateNote mk s nid etag t c g = (r, s', evs)"
    and i: "Suc i = length evs" and ev: "evs ! i = (PUT n f t' c' g', Inl e)"
  shows "r = Inl e"
  using run
proof (cases rule: updateNote_cases)
  case direct
  from i have ne: "evs \<noteq> []" and li: "length evs - 1 = i" by auto
  from ne li ev have "snd (last evs) = Inl e" by (simp add: last_conv_nth)
  with tf_result[OF direct(1)] ne show ?thesis by simp
next
  case (refetch_failed e1 s1 evs1 re)
  from refetch_failed(5) i have "i = length evs1" by simp
  with refetch_failed(5) ev show ?thesis by simp
next
  case (retried e1 s1 evs1 fresh s2 evs3)
  have ne: "evs3 \<noteq> []"
  proof
    assume "evs3 = []"
    with retried(5) i have "i = length evs1" by simp
    with retried(5) ev show False by simp
  qed
  from retried(5) i ne have "evs ! i = last evs3"
    by (metis append_is_Nil_conv diff_Suc_1 last_appendR last_conv_nth list.distinct(1))
  with ev have "snd (last evs3) = Inl e" by simp
  with tf_result[OF retried(4)] ne show ?thesis by simp
qed

text \<open>
  Claim C9, as amended. An error of an update request passes the 412 test exactly when it
  is an \<open>Error\<close> whose message contains \<open>412\<close>. After such an error another request
  follows (the next encoding, or the fetch) exactly when the test holds and the request was
  not the sixth update request, that is the last encoding of the attempt after the fetch.
  An error after which no request follows is the outcome of the call: every error that
  fails the test, and the error of the sixth update request whatever its message.
\<close>

theorem updateNote_412_classification:
  assumes run: "updateNote mk s nid etag t c g = (r, s', evs)"
    and i: "i < length evs"
    and ev: "evs ! i = (PUT n f t' c' g', Inl e)"
  shows "(is412 e \<longleftrightarrow> (\<exists>m p q. e = Error m \<and> m = p @ ''412'' @ q))
       \<and> (Suc i < length evs \<longleftrightarrow> is412 e \<and> i < 6)
       \<and> (\<not> is412 e \<longrightarrow> r = Inl e)
       \<and> (\<not> Suc i < length evs \<longrightarrow> r = Inl e)"
proof -
  have L: "\<not> Suc i < length evs \<longrightarrow> r = Inl e"
  proof
    assume "\<not> Suc i < length evs"
    with i have "Suc i = length evs" by simp
    from updateNote_last_error[OF run this ev] show "r = Inl e" .
  qed
  have A: "is412 e \<longleftrightarrow> (\<exists>m p q. e = Error m \<and> m = p @ ''412'' @ q)"
    by (rule is412_iff)
  have B: "(Suc i < length evs \<longleftrightarrow> is412 e \<and> i < 6) \<and> (\<not> is412 e \<longrightarrow> r = Inl e)"
    using run
  proof (cases rule: updateNote_cases)
    case direct
    from tf_length[OF direct(1)] have len: "length evs \<le> 3" by (simp add: length_etagFormats3)
    show ?thesis
    proof (cases "is412 e")
      case True
      from tf_go_on[OF direct(1) i ev True] direct(2) True i len show ?thesis by auto
    next
      case False
      with tf_stop[OF direct(1) i ev] show ?thesis by simp
    qed
  next
    case (refetch_failed e1 s1 evs1 re)
    from tf_412[OF refetch_failed(1,2)] have len: "length evs1 = 3"
      by (simp add: length_etagFormats3)
    have "i < length evs1"
      using i ev refetch_failed(5) by (cases "i = length evs1") (auto simp: nth_append)
    from tf_all_412[OF refetch_failed(1,2) this] ev refetch_failed(5) \<open>i < length evs1\<close> len
    show ?thesis by (auto simp: nth_append)
  next
    case (retried e1 s1 evs1 fresh s2 evs3)
    from tf_412[OF retried(1,2)] have len: "length evs1 = 3"
      by (simp add: length_etagFormats3)
    from tf_length[OF retried(4)] have len3: "length evs3 \<le> 3"
      by (simp add: length_etagFormats3)
    show ?thesis
    proof (cases "i < length evs1")
      case True
      from tf_all_412[OF retried(1,2) this] ev retried(5) True len
      show ?thesis by (auto simp: nth_append)
    next
      case False
      with retried(5) ev have "i \<noteq> length evs1" by (auto simp: nth_append)
      with False obtain j where j: "i = Suc (length evs1 + j)"
        by (metis le_neq_implies_less less_iff_Suc_add not_less)
      with retried(5) i ev have j3: "j < length evs3" "evs3 ! j = (PUT n f t' c' g', Inl e)"
        by (auto simp: nth_append)
      show ?thesis
      proof (cases "is412 e")
        case True
        from tf_go_on[OF retried(4) j3 True] True j len len3 retried(5)
        show ?thesis by (auto simp: length_etagFormats3)
      next
        case False
        with tf_stop[OF retried(4) j3(1) j3(2)] j retried(5) show ?thesis by simp
      qed
    qed
  qed
  from A B L show ?thesis by blast
qed

text \<open>
  The claim as stated fails at the last encoding of the second attempt: the error passes
  the 412 test, and neither a further encoding nor a fetch follows, because the retry
  counter is no longer zero.
\<close>

theorem updateNote_412_last_counterexample:
  "events (updateNote contended 0 7 ''v1'' None (Some ''z'') None) ! 6 =
      (PUT 7 ''v3'' None (Some ''z'') None,
       Inl (Error ''412 Precondition Failed, current etag is v4''))
   \<and> is412 (Error ''412 Precondition Failed, current etag is v4'')
   \<and> \<not> Suc 6 < length (events (updateNote contended 0 7 ''v1'' None (Some ''z'') None))"
  by (simp add: contended_run events_def)

text \<open>
  Witness: the third update request of the first attempt is refused with a 412 error, and
  the fetch follows; the sixth update request is refused with a 412 error, nothing
  follows, and its error is the outcome.
\<close>

theorem updateNote_412_classification_witness:
  "events (updateNote contended 0 7 ''v1'' None (Some ''z'') None) ! 2 =
      (PUT 7 ''v1'' None (Some ''z'') None,
       Inl (Error ''412 Precondition Failed, current etag is v2''))
   \<and> is412 (Error ''412 Precondition Failed, current etag is v2'')
   \<and> Suc 2 < length (events (updateNote contended 0 7 ''v1'' None (Some ''z'') None))
   \<and> events (updateNote contended 0 7 ''v1'' None (Some ''z'') None) ! 6 =
      (PUT 7 ''v3'' None (Some ''z'') None,
       Inl (Error ''412 Precondition Failed, current etag is v4''))
   \<and> \<not> Suc 6 < length (events (updateNote contended 0 7 ''v1'' None (Some ''z'') None))
   \<and> fst (updateNote contended 0 7 ''v1'' None (Some ''z'') None)
       = Inl (Error ''412 Precondition Failed, current etag is v4'')"
proof -
  have ev: "[(PUT 7 ''v1'' None (Some ''z'') None, Inl (Error ''412 Precondition Failed, current etag is v2'')),
       (PUT 7 ([dquote] @ ''v1'' @ [dquote]) None (Some ''z'') None,
          Inl (Error ''412 Precondition Failed, current etag is v2'')),
       (PUT 7 ''v1'' None (Some ''z'') None, Inl (Error ''412 Precondition Failed, current etag is v2'')),
       (GET 7, Inr (note7 ''x'' ''v3'')),
       (PUT 7 ''v3'' None (Some ''z'') None, Inl (Error ''412 Precondition Failed, current etag is v4'')),
       (PUT 7 ([dquote] @ ''v3'' @ [dquote]) None (Some ''z'') None,
          Inl (Error ''412 Precondition Failed, current etag is v4'')),
       (PUT 7 ''v3'' None (Some ''z'') None, Inl (Error ''412 Precondition Failed, current etag is v4''))] ! 2
     = (PUT 7 ''v1'' None (Some ''z'') None, Inl (Error ''412 Precondition Failed, current etag is v2''))"
    by simp
  from updateNote_412_classification[OF contended_run _ ev]
  show ?thesis by (simp add: contended_run events_def)
qed

subsection \<open>The error surfaced after a failed retry\<close>

text \<open>
  Claim C4, evaluated where the code departs from it. The first attempt ends with a 412
  error naming the tag \<open>v2\<close>; the note is fetched; the second attempt ends with a 412 error
  naming the tag \<open>v4\<close>. The call surfaces the error of the second attempt, not the
  original one: the recursive call is returned without \<open>await\<close>, so the \<open>catch\<close> that
  throws the original error is not in force when the retry fails.
\<close>

theorem updateNote_retry_error_surfaced:
  "events (updateNote contended 0 7 ''v1'' None (Some ''z'') None) ! 2 =
      (PUT 7 ''v1'' None (Some ''z'') None,
       Inl (Error ''412 Precondition Failed, current etag is v2''))
   \<and> fst (updateNote contended 0 7 ''v1'' None (Some ''z'') None) =
       Inl (Error ''412 Precondition Failed, current etag is v4'')
   \<and> fst (updateNote contended 0 7 ''v1'' None (Some ''z'') None) \<noteq>
       Inl (Error ''412 Precondition Failed, current etag is v2'')"
  by (simp add: contended_run events_def)

text \<open>
  The part of the recovery that does surface the original error: a failed fetch.
\<close>

lemma updateNote_refetch_failure:
  assumes "tryFormats mk (\<lambda>f. PUT nid f t c g) s (etagFormats etag) None = (Inl e, s1, evs1)"
    and "is412 e" and "mk s1 (GET nid) = (Inl refreshError, s2)"
  shows "updateNote mk s nid etag t c g = (Inl e, s2, evs1 @ [(GET nid, Inl refreshError)])"
  using assms by (simp add: updateNote_def unwr_0)


subsection \<open>Tags without a double quote\<close>

lemma etagFormats_unquoted:
  "dquote \<notin> set etag \<Longrightarrow> etagFormats etag = [etag, [dquote] @ etag @ [dquote], etag]"
proof -
  assume "dquote \<notin> set etag"
  then have "filter (\<lambda>c. c \<noteq> dquote) etag = etag"
    by (induction etag) auto
  then show ?thesis by (simp add: etagFormats_def)
qed

lemma tf_request_set:
  assumes "tryFormats mk req s fs le = (r, s', evs)"
  shows "fst ` set evs \<subseteq> req ` set fs"
proof -
  from tf_requests[OF assms] have "set (map fst evs) \<subseteq> set (map req fs)"
    by (rule set_mono_prefix)
  then show ?thesis by simp
qed

text \<open>
  Claim C10. For a tag without a double quote the third encoding is the first one: the
  candidate list holds two distinct strings, the raw and the quoted tag, the update requests
  of the attempt made with this tag carry no other (the first attempt of a call, and the
  whole of a call whose retry counter is not zero), and the third request, when it is sent,
  repeats the first.
\<close>

theorem etagFormats_unquoted_duplicate:
  assumes nq: "dquote \<notin> set etag"
    and run: "updateNote mk s nid etag t c g = (r, s', evs)"
  shows "etagFormats etag ! 2 = etagFormats etag ! 0
       \<and> set (etagFormats etag) = {etag, [dquote] @ etag @ [dquote]}
       \<and> fst ` set (takeWhile isPUT evs)
            \<subseteq> {PUT nid etag t c g, PUT nid ([dquote] @ etag @ [dquote]) t c g}
       \<and> (2 < length evs \<longrightarrow> fst (evs ! 2) = PUT nid etag t c g \<and> fst (evs ! 0) = PUT nid etag t c g)
       \<and> fst ` set (events (updateNoteWithRetry mk s nid etag t c g (Suc k)))
            \<subseteq> {PUT nid etag t c g, PUT nid ([dquote] @ etag @ [dquote]) t c g}"
proof -
  note fm = etagFormats_unquoted[OF nq]
  have A: "etagFormats etag ! 2 = etagFormats etag ! 0" by (simp add: fm)
  have B: "set (etagFormats etag) = {etag, [dquote] @ etag @ [dquote]}" by (auto simp: fm)
  from updateNote_first_attempt[OF run] obtain r1 s1 where
    t1: "tryFormats mk (\<lambda>f. PUT nid f t c g) s (etagFormats etag) None = (r1, s1, takeWhile isPUT evs)"
    by blast
  from tf_request_set[OF t1] B
  have C: "fst ` set (takeWhile isPUT evs)
            \<subseteq> {PUT nid etag t c g, PUT nid ([dquote] @ etag @ [dquote]) t c g}"
    by auto
  have D: "fst (evs ! 2) = PUT nid etag t c g \<and> fst (evs ! 0) = PUT nid etag t c g"
    if len: "2 < length evs"
    using run
  proof (cases rule: updateNote_cases)
    case direct
    from len have "0 < length evs" by arith
    from tf_nth_request[OF direct(1) len] tf_nth_request[OF direct(1) this]
    show ?thesis by (simp add: fm)
  next
    case (refetch_failed e s1 evs1 re)
    from tf_412[OF refetch_failed(1,2)] have l: "length evs1 = 3" by (simp add: fm)
    from tf_nth_request[OF refetch_failed(1), of 2] tf_nth_request[OF refetch_failed(1), of 0] l
    show ?thesis by (simp add: fm refetch_failed(5) nth_append)
  next
    case (retried e s1 evs1 fresh s2 evs3)
    from tf_412[OF retried(1,2)] have l: "length evs1 = 3" by (simp add: fm)
    from tf_nth_request[OF retried(1), of 2] tf_nth_request[OF retried(1), of 0] l
    show ?thesis by (simp add: fm retried(5) nth_append)
  qed
  obtain r2 s2 evs2 where
    t2: "tryFormats mk (\<lambda>f. PUT nid f t c g) s (etagFormats etag) None = (r2, s2, evs2)"
    by (metis prod_cases3)
  from tf_request_set[OF t2] B
  have E: "fst ` set (events (updateNoteWithRetry mk s nid etag t c g (Suc k)))
            \<subseteq> {PUT nid etag t c g, PUT nid ([dquote] @ etag @ [dquote]) t c g}"
    by (auto simp: unwr_Suc t2 events_def)
  from A B C D E show ?thesis by blast
qed

text \<open>
  Witness: the tag \<open>v1\<close> against a service that refuses every update.
\<close>

theorem etagFormats_unquoted_duplicate_witness:
  "dquote \<notin> set ''v1''
   \<and> etagFormats ''v1'' ! 2 = etagFormats ''v1'' ! 0
   \<and> fst (events (updateNote contended 0 7 ''v1'' None (Some ''z'') None) ! 2)
       = PUT 7 ''v1'' None (Some ''z'') None
   \<and> fst (events (updateNote contended 0 7 ''v1'' None (Some ''z'') None) ! 0)
       = PUT 7 ''v1'' None (Some ''z'') None"
proof -
  have nq: "dquote \<notin> set ''v1''" by (simp add: dquote_def)
  from etagFormats_unquoted_duplicate[OF nq contended_run] nq
  show ?thesis by (simp add: contended_run events_def)
qed
section \<open>Properties of the request tracker\<close>

subsection \<open>Reading and writing a property\<close>

lemma map_of_replaceValue_other:
  "k' \<noteq> k \<Longrightarrow> map_of (replaceValue k v obj) k' = map_of obj k'"
  by (induction obj) auto

lemma map_of_replaceValue_same:
  "k \<in> fst ` set obj \<Longrightarrow> map_of (replaceValue k v obj) k = Some v"
  by (induction obj) force+

lemma map_of_insertIndex_other:
  "k' \<noteq> k \<Longrightarrow> map_of (insertIndex k v obj) k' = map_of obj k'"
  by (induction obj) auto

lemma map_of_insertIndex_same:
  "k \<notin> fst ` set obj \<Longrightarrow> map_of (insertIndex k v obj) k = Some v"
  by (induction obj) auto

lemma objGet_objSet_same: "objGet (objSet obj k v) k = Some v"
proof (cases "k \<in> fst ` set obj")
  case True
  then show ?thesis by (simp add: objGet_def objSet_def map_of_replaceValue_same)
next
  case False
  then have "map_of obj k = None" by (simp add: map_of_eq_None_iff)
  with False show ?thesis
    by (simp add: objGet_def objSet_def map_of_insertIndex_same map_add_def)
qed

lemma objGet_objSet_other: "k' \<noteq> k \<Longrightarrow> objGet (objSet obj k v) k' = objGet obj k'"
  by (simp add: objGet_def objSet_def map_of_replaceValue_other map_of_insertIndex_other
                map_add_def split: option.splits)

lemma objGet_objSet:
  "objGet (objSet obj k v) k' = (if k' = k then Some v else objGet obj k')"
  by (simp add: objGet_objSet_same objGet_objSet_other)


subsection \<open>Counting requests\<close>

lemma jsSucc_exact: "n < 9007199254740992 \<Longrightarrow> jsSucc n = n + 1"
  by (simp add: jsSucc_def)

lemma counter_increment_same:
  "counter obj k = Some c \<Longrightarrow> counter (increment obj k) k = Some (jsSucc c)"
  by (auto simp: counter_def increment_def objGet_objSet_same jsSucc_def
           split: option.splits jsval.splits)

lemma increment_other: "k' \<noteq> k \<Longrightarrow> objGet (increment obj k) k' = objGet obj k'"
  by (simp add: increment_def objGet_objSet_other split: option.splits jsval.splits)

lemma counter_increment_other:
  "k' \<noteq> k \<Longrightarrow> counter (increment obj k) k' = counter obj k'"
  by (simp add: counter_def increment_other)

lemma invoke_endpoint_hit:
  "requestTo endpoint op \<Longrightarrow> counter (requestsByEndpoint a) endpoint = Some c \<Longrightarrow>
     counter (requestsByEndpoint (invoke a op)) endpoint = Some (jsSucc c)"
  by (cases op) (simp_all add: trackRequest_def Let_def counter_increment_same)

lemma invoke_endpoint_miss:
  "\<not> requestTo endpoint op \<Longrightarrow>
     counter (requestsByEndpoint (invoke a op)) endpoint = counter (requestsByEndpoint a) endpoint"
  by (cases op)
     (simp_all add: trackRequest_def trackToolCall_def Let_def counter_increment_other)

lemma invoke_total:
  "totalRequests (invoke a op) =
     (if isRequest op then jsSucc (totalRequests a) else totalRequests a)"
  by (cases op) (simp_all add: trackRequest_def trackToolCall_def Let_def)

lemma run_endpoint:
  "counter (requestsByEndpoint a) endpoint = Some c \<Longrightarrow>
   c + length (filter (requestTo endpoint) ops) \<le> 9007199254740992 \<Longrightarrow>
     counter (requestsByEndpoint (foldl invoke a ops)) endpoint
       = Some (c + length (filter (requestTo endpoint) ops))"
proof (induction ops arbitrary: a c)
  case Nil
  then show ?case by simp
next
  case (Cons op ops)
  show ?case
  proof (cases "requestTo endpoint op")
    case True
    with Cons.prems(2) have c: "c < 9007199254740992" by simp
    from invoke_endpoint_hit[OF True Cons.prems(1)] c
    have "counter (requestsByEndpoint (invoke a op)) endpoint = Some (c + 1)"
      by (simp add: jsSucc_exact)
    from Cons.IH[OF this] Cons.prems(2) True show ?thesis by simp
  next
    case False
    with Cons.prems(1) have "counter (requestsByEndpoint (invoke a op)) endpoint = Some c"
      by (simp add: invoke_endpoint_miss)
    from Cons.IH[OF this] Cons.prems(2) False show ?thesis by simp
  qed
qed

lemma run_total:
  "totalRequests a + length (filter isRequest ops) \<le> 9007199254740992 \<Longrightarrow>
     totalRequests (foldl invoke a ops) = totalRequests a + length (filter isRequest ops)"
proof (induction ops arbitrary: a)
  case Nil
  then show ?case by simp
next
  case (Cons op ops)
  show ?case
  proof (cases "isRequest op")
    case True
    with Cons.prems have "totalRequests a < 9007199254740992" by simp
    with True have t: "totalRequests (invoke a op) = totalRequests a + 1"
      by (simp add: invoke_total jsSucc_exact)
    with Cons.prems True
    have "totalRequests (invoke a op) + length (filter isRequest ops) \<le> 9007199254740992"
      by simp
    from Cons.IH[OF this] t True show ?thesis by simp
  next
    case False
    with Cons.prems Cons.IH[of "invoke a op"] show ?thesis by (simp add: invoke_total)
  qed
qed

lemma same_endpoint_as_run:
  "foldl (\<lambda>a (req, now). trackRequest a req endpoint now) a calls =
     foldl invoke a (map (\<lambda>(req, now). TrackRequest req endpoint now) calls)"
  by (induction calls arbitrary: a) (auto)

lemma same_endpoint_filters:
  "filter (requestTo endpoint) (map (\<lambda>(req, now). TrackRequest req endpoint now) calls)
     = map (\<lambda>(req, now). TrackRequest req endpoint now) calls
   \<and> filter isRequest (map (\<lambda>(req, now). TrackRequest req endpoint now) calls)
     = map (\<lambda>(req, now). TrackRequest req endpoint now) calls"
  by (induction calls) auto

text \<open>
  Claim C5, as amended. From a state in which the counter of an endpoint is a whole
  number \<open>c\<close> from 0 on (the key holds such a number, or it is neither an own property
  nor inherited from \<open>Object.prototype\<close>), \<open>trackRequest\<close> called N times with that endpoint, with any
  requests and clock readings, brings the counter to \<open>c + N\<close> as long as that is at most
  \<open>2^53\<close>, and adds N to the total as long as the total stays at most \<open>2^53\<close>. No
  increment is lost among other invocations either: after any sequence of invocations of
  \<open>trackRequest\<close> and \<open>trackToolCall\<close>, run one after the other as the event loop runs
  these synchronous functions, the counter has grown by the number of \<open>trackRequest\<close>
  invocations with that endpoint, and the total by the number of \<open>trackRequest\<close>
  invocations, under the same bounds.
\<close>

theorem trackRequest_counts_exactly:
  assumes "counter (requestsByEndpoint a) endpoint = Some c"
  shows "(c + length calls \<le> 9007199254740992 \<longrightarrow>
            counter (requestsByEndpoint
                (foldl (\<lambda>a (req, now). trackRequest a req endpoint now) a calls)) endpoint
              = Some (c + length calls))
       \<and> (totalRequests a + length calls \<le> 9007199254740992 \<longrightarrow>
            totalRequests (foldl (\<lambda>a (req, now). trackRequest a req endpoint now) a calls)
              = totalRequests a + length calls)
       \<and> (c + length (filter (requestTo endpoint) ops) \<le> 9007199254740992 \<longrightarrow>
            counter (requestsByEndpoint (foldl invoke a ops)) endpoint
              = Some (c + length (filter (requestTo endpoint) ops)))
       \<and> (totalRequests a + length (filter isRequest ops) \<le> 9007199254740992 \<longrightarrow>
            totalRequests (foldl invoke a ops)
              = totalRequests a + length (filter isRequest ops))"
proof (intro conjI impI)
  assume "c + length calls \<le> 9007199254740992"
  with run_endpoint[OF assms,
         where ops = "map (\<lambda>(req, now). TrackRequest req endpoint now) calls"]
  show "counter (requestsByEndpoint
          (foldl (\<lambda>a (req, now). trackRequest a req endpoint now) a calls)) endpoint
        = Some (c + length calls)"
    by (simp add: same_endpoint_as_run same_endpoint_filters)
next
  assume "totalRequests a + length calls \<le> 9007199254740992"
  with run_total[of a "map (\<lambda>(req, now). TrackRequest req endpoint now) calls"]
  show "totalRequests (foldl (\<lambda>a (req, now). trackRequest a req endpoint now) a calls)
          = totalRequests a + length calls"
    by (simp add: same_endpoint_as_run same_endpoint_filters)
next
  assume "c + length (filter (requestTo endpoint) ops) \<le> 9007199254740992"
  with run_endpoint[OF assms] 
  show "counter (requestsByEndpoint (foldl invoke a ops)) endpoint
          = Some (c + length (filter (requestTo endpoint) ops))" by simp
next
  assume "totalRequests a + length (filter isRequest ops) \<le> 9007199254740992"
  then show "totalRequests (foldl invoke a ops) = totalRequests a + length (filter isRequest ops)"
    by (rule run_total)
qed

lemma zero_counter: "counter (requestsByEndpoint (defaultAnalytics startTime)) ''/mcp'' = Some 0"
  by (simp add: counter_def objGet_def defaultAnalytics_def objectPrototype_def)

text \<open>
  Witness: three requests to \<open>/mcp\<close> among three tool calls, from the zero state.
\<close>

theorem trackRequest_counts_exactly_witness:
  "counter (requestsByEndpoint (defaultAnalytics ''2026-01-01T09:00:00.000Z'')) ''/mcp'' = Some 0
   \<and> counter (requestsByEndpoint afterThreeCalls) ''/mcp'' = Some 3
   \<and> totalRequests afterThreeCalls = 3"
  using trackRequest_counts_exactly[OF zero_counter,
          where startTime1 = "''2026-01-01T09:00:00.000Z''" and calls = "[]" and ops = threeCalls]
  by (simp add: afterThreeCalls_def threeCalls_def zero_counter) (simp add: defaultAnalytics_def)

text \<open>
  The claim as stated fails where a counter stands at \<open>2^53\<close>: one more request to the
  endpoint leaves the counter and the total as they are.
\<close>

theorem trackRequest_counts_counterexample:
  "counter (requestsByEndpoint saturated) ''/mcp'' = Some 9007199254740992
   \<and> counter (requestsByEndpoint
        (trackRequest saturated curl ''/mcp'' ''2026-01-01T10:00:00.000Z'')) ''/mcp''
       = Some 9007199254740992
   \<and> totalRequests saturated = 9007199254740992
   \<and> totalRequests (trackRequest saturated curl ''/mcp'' ''2026-01-01T10:00:00.000Z'')
       = 9007199254740992"
  by (simp add: saturated_def defaultAnalytics_def trackRequest_def Let_def counter_def
                increment_def objGet_def objSet_def jsSucc_def)

subsection \<open>The list of recent tool calls\<close>

lemma ring_step:
  "length old \<le> 100 \<Longrightarrow>
     (if length (e # old) > 100 then butlast (e # old) else e # old) = take 100 (e # old)"
proof (cases "length old = 100")
  case True
  have "butlast (e # old) = take (length (e # old) - 1) (e # old)"
    by (rule butlast_conv_take)
  also have "\<dots> = take 100 (e # old)" using True by simp
  finally show ?thesis using True by simp
next
  case False
  assume "length old \<le> 100"
  with False have "length old < 100" by simp
  then show ?thesis by simp
qed

lemma invoke_ring:
  assumes "length (recentToolCalls a) \<le> 100"
  shows "recentToolCalls (invoke a op) = take 100 (rev (toolCallEntries [op]) @ recentToolCalls a)"
proof (cases op)
  case (TrackRequest req endpoint now)
  with assms show ?thesis by (simp add: trackRequest_def Let_def)
next
  case (TrackToolCall toolName clientIp now)
  with ring_step[OF assms] show ?thesis
    by (simp add: trackToolCall_def Let_def del: butlast.simps)
qed

lemma toolCallEntries_Cons:
  "toolCallEntries (op # ops) = toolCallEntries [op] @ toolCallEntries ops"
  by (cases op) simp_all

lemma take_append_take: "take n (xs @ take n ys) = take n (xs @ ys)"
  by (simp add: min_def)

lemma run_ring:
  "length (recentToolCalls a) \<le> 100 \<Longrightarrow>
     recentToolCalls (foldl invoke a ops) = take 100 (rev (toolCallEntries ops) @ recentToolCalls a)"
proof (induction ops arbitrary: a)
  case Nil
  then show ?case by simp
next
  case (Cons op ops)
  from invoke_ring[OF Cons.prems]
  have step: "recentToolCalls (invoke a op) = take 100 (rev (toolCallEntries [op]) @ recentToolCalls a)" .
  then have "length (recentToolCalls (invoke a op)) \<le> 100" by simp
  from Cons.IH[OF this]
  have "recentToolCalls (foldl invoke a (op # ops))
          = take 100 (rev (toolCallEntries ops) @ recentToolCalls (invoke a op))"
    by simp
  also have "\<dots> = take 100 (rev (toolCallEntries ops)
                        @ take 100 (rev (toolCallEntries [op]) @ recentToolCalls a))"
    by (simp only: step)
  also have "\<dots> = take 100 (rev (toolCallEntries ops)
                        @ rev (toolCallEntries [op]) @ recentToolCalls a)"
    by (rule take_append_take)
  also have "\<dots> = take 100 (rev (toolCallEntries (op # ops)) @ recentToolCalls a)"
    by (simp add: toolCallEntries_Cons[of op ops] del: take_append)
  finally show ?case .
qed

lemma toolCallEntries_calls:
  "toolCallEntries (map (\<lambda>(toolName, clientIp, now). TrackToolCall toolName clientIp now) calls)
     = map (\<lambda>(toolName, clientIp, now).
              \<lparr>tc_tool = toolName, tc_timestamp = now, tc_clientIp = clientIp\<rparr>) calls"
  by (induction calls) auto

text \<open>
  Claim C7. From a state whose recent-call list has at most 100 entries, after any sequence
  of invocations the list is the first 100 entries of the new calls, newest first, followed
  by the old list: it has at most 100 entries, holds the most recent calls only and has
  the newest first. Its length is the smaller of 100 and the number of entries old and
  new, so after 101 calls it is exactly 100.
\<close>

theorem recentToolCalls_ring:
  assumes "length (recentToolCalls a) \<le> 100"
  shows "recentToolCalls (foldl invoke a ops)
           = take 100 (rev (toolCallEntries ops) @ recentToolCalls a)
       \<and> length (recentToolCalls (foldl invoke a ops)) \<le> 100
       \<and> length (recentToolCalls (foldl invoke a ops))
           = min 100 (length (toolCallEntries ops) + length (recentToolCalls a))
       \<and> length (recentToolCalls
            (foldl invoke a
               (map (\<lambda>(toolName, clientIp, now). TrackToolCall toolName clientIp now) calls)))
           = min 100 (length calls + length (recentToolCalls a))"
proof -
  note r = run_ring[OF assms]
  show ?thesis unfolding r by (simp add: toolCallEntries_calls min.commute del: take_append)
qed

text \<open>
  Witness: 101 calls of \<open>create_note\<close> from the zero state.
\<close>

theorem recentToolCalls_ring_witness:
  "length (recentToolCalls (defaultAnalytics ''2026-01-01T09:00:00.000Z'')) \<le> 100
   \<and> length (recentToolCalls
        (foldl invoke (defaultAnalytics ''2026-01-01T09:00:00.000Z'')
           (map (\<lambda>(toolName, clientIp, now). TrackToolCall toolName clientIp now)
              (replicate 101 (''create_note'', ''1.2.3.4'', ''2026-01-01T10:00:00.000Z''))))) = 100"
proof -
  have h: "length (recentToolCalls (defaultAnalytics ''2026-01-01T09:00:00.000Z'')) \<le> 100"
    by (simp add: defaultAnalytics_def)
  from recentToolCalls_ring[OF h, of "[]"
         "replicate 101 (''create_note'', ''1.2.3.4'', ''2026-01-01T10:00:00.000Z'')"] h
  show ?thesis by (simp add: defaultAnalytics_def)
qed


subsection \<open>Persistence\<close>

text \<open>
  Claim C8, as amended. \<open>saveAnalytics\<close> never throws: whatever the file system and
  \<open>JSON.stringify\<close> do, it returns normally, and when its \<open>try\<close> block failed nothing
  was written and one warning was logged. \<open>loadAnalytics\<close> never throws either. It
  returns the zero-valued default state when the file is absent, when it cannot be read and
  when \<open>JSON.parse\<close> rejects its text; a text that \<open>JSON.parse\<close> accepts is returned
  as the state, whatever value it holds.
\<close>

theorem persistence_failures_swallowed:
  "fst (saveAnalytics stringify d a) = Inr ()
   \<and> (\<forall>e. saveAnalyticsTry stringify d a = Inl e \<longrightarrow>
          saveAnalytics stringify d a = (Inr (), None, [''Could not save analytics file'']))
   \<and> fst (loadAnalytics parse startTime Absent) = Inr (State (defaultAnalytics startTime))
   \<and> fst (loadAnalytics parse startTime (Unreadable e'))
       = Inr (State (defaultAnalytics startTime))
   \<and> (\<forall>e. parse data = Inl e \<longrightarrow>
          fst (loadAnalytics parse startTime (Content data))
            = Inr (State (defaultAnalytics startTime)))
   \<and> (\<forall>v. parse data = Inr v \<longrightarrow>
          fst (loadAnalytics parse startTime (Content data)) = Inr v)
   \<and> (\<exists>v. fst (loadAnalytics parse startTime file) = Inr v)"
  by (auto simp: saveAnalytics_def loadAnalytics_def loadAnalyticsTry_def
           split: sum.splits option.splits snapshotFile.splits)

text \<open>
  The claim as stated fails for a snapshot that is damaged and still parses: the file
  \<open>{}\<close> is loaded as the state, not replaced by the default state.
\<close>

theorem loadAnalytics_wrong_shape_counterexample:
  "parseEmptyObject ''{}'' = Inr (Other ''{}'')
   \<and> fst (loadAnalytics parseEmptyObject ''2026-01-01T09:00:00.000Z'' (Content ''{}''))
       = Inr (Other ''{}'')
   \<and> fst (loadAnalytics parseEmptyObject ''2026-01-01T09:00:00.000Z'' (Content ''{}''))
       \<noteq> Inr (State (defaultAnalytics ''2026-01-01T09:00:00.000Z''))"
  by (simp add: parseEmptyObject_def loadAnalytics_def loadAnalyticsTry_def)

text \<open>
  Witness: a disk that refuses the write, and a snapshot cut off after its first character.
\<close>

theorem persistence_failures_swallowed_witness:
  "saveAnalyticsTry plainText readOnlyDisk afterThreeCalls
       = Inl (Error ''EROFS: read-only file system'')
   \<and> saveAnalytics plainText readOnlyDisk afterThreeCalls
       = (Inr (), None, [''Could not save analytics file''])
   \<and> rejectAll ''{'' = Inl (Error ''Unexpected end of JSON input'')
   \<and> fst (loadAnalytics rejectAll ''2026-01-01T09:00:00.000Z'' (Content ''{''))
       = Inr (State (defaultAnalytics ''2026-01-01T09:00:00.000Z''))"
proof -
  have s: "saveAnalyticsTry plainText readOnlyDisk afterThreeCalls
       = Inl (Error ''EROFS: read-only file system'')"
    by (simp add: saveAnalyticsTry_def plainText_def readOnlyDisk_def)
  have l: "rejectAll ''{'' = Inl (Error ''Unexpected end of JSON input'')"
    by (simp add: rejectAll_def)
  from persistence_failures_swallowed[of plainText readOnlyDisk afterThreeCalls rejectAll
         "''2026-01-01T09:00:00.000Z''" _ "''{''"] s l
  show ?thesis by blast
qed

subsection \<open>The summary\<close>

lemma length_replaceValue: "length (replaceValue k v obj) = length obj"
  by (induction obj) auto

lemma length_insertIndex: "length (insertIndex k v obj) = Suc (length obj)"
  by (induction obj) auto

lemma length_objSet: "length (objSet obj k v) \<le> Suc (length obj)"
  by (simp add: objSet_def length_replaceValue length_insertIndex)

lemma length_foldl_objSet:
  "length (foldl (\<lambda>acc (k, v). objSet acc k v) acc entries) \<le> length acc + length entries"
proof (induction entries arbitrary: acc)
  case Nil
  then show ?case by simp
next
  case (Cons e entries)
  obtain k v where e: "e = (k, v)" by (cases e)
  from Cons.IH[of "objSet acc k v"] length_objSet[of acc k v] e show ?case by simp
qed

lemma length_reduceToObject: "length (reduceToObject entries) \<le> length entries"
  using length_foldl_objSet[of "[]" entries] by (simp add: reduceToObject_def)

text \<open>
  The summary never holds more than 20 client addresses, nor more than 24 hour buckets.
\<close>

lemma summary_sizes:
  "length (sum_byIp (analyticsSummary localeCompare a)) \<le> 20
   \<and> length (sum_hourlyRequests (analyticsSummary localeCompare a)) \<le> 24"
proof -
  have "length (sortedClients a) \<le> length (take 20 (sortBy byCountDesc (clientsByIp a)))"
    unfolding sortedClients_def by (rule length_reduceToObject)
  moreover have "length (last24Hours localeCompare a)
                   \<le> length (rev (take 24 (sortBy (byKeyDesc localeCompare) (hourlyRequests a))))"
    unfolding last24Hours_def by (rule length_reduceToObject)
  ultimately show ?thesis by (simp add: analyticsSummary_def)
qed

lemma foldl_objSet_plain:
  "distinct (map fst (acc @ entries)) \<Longrightarrow> list_all (\<lambda>e. \<not> isArrayIndex (fst e)) entries \<Longrightarrow>
     foldl (\<lambda>acc (k, v). objSet acc k v) acc entries = acc @ entries"
proof (induction entries arbitrary: acc)
  case Nil
  then show ?case by simp
next
  case (Cons e entries)
  obtain k v where e: "e = (k, v)" by (cases e)
  with Cons.prems have "objSet acc k v = acc @ [(k, v)]"
    by (auto simp: objSet_def)
  moreover from Cons.prems e have "distinct (map fst ((acc @ [(k, v)]) @ entries))" by simp
  moreover from Cons.prems have "list_all (\<lambda>e. \<not> isArrayIndex (fst e)) entries" by simp
  ultimately show ?case using Cons.IH[of "acc @ [(k, v)]"] e by simp
qed

lemma reduceToObject_plain:
  "distinct (map fst entries) \<Longrightarrow> list_all (\<lambda>e. \<not> isArrayIndex (fst e)) entries \<Longrightarrow>
     reduceToObject entries = entries"
  using foldl_objSet_plain[of "[]" entries] by (simp add: reduceToObject_def)

lemma set_insertBy: "set (insertBy cmp x ys) = insert x (set ys)"
  by (induction ys) auto

lemma set_sortBy: "set (sortBy cmp xs) = set xs"
  by (induction xs) (simp_all add: sortBy_def set_insertBy)

lemma length_insertBy: "length (insertBy cmp x ys) = Suc (length ys)"
  by (induction ys) auto

lemma length_sortBy: "length (sortBy cmp xs) = length xs"
  by (induction xs) (simp_all add: sortBy_def length_insertBy)

lemma distinct_insertBy:
  "distinct (map f (insertBy cmp x ys)) = (f x \<notin> f ` set ys \<and> distinct (map f ys))"
  by (induction ys) (auto simp: set_insertBy)

lemma distinct_sortBy: "distinct (map f (sortBy cmp xs)) = distinct (map f xs)"
  by (induction xs) (simp_all add: sortBy_def distinct_insertBy set_sortBy[unfolded sortBy_def])

lemma sorted_insertBy:
  assumes total: "\<And>x y. x \<in> S \<Longrightarrow> y \<in> S \<Longrightarrow> cmp x y \<le> 0 \<or> cmp y x \<le> 0"
    and trans: "\<And>x y z. x \<in> S \<Longrightarrow> y \<in> S \<Longrightarrow> z \<in> S \<Longrightarrow>
                  cmp x y \<le> 0 \<Longrightarrow> cmp y z \<le> 0 \<Longrightarrow> cmp x z \<le> 0"
  shows "x \<in> S \<Longrightarrow> set ys \<subseteq> S \<Longrightarrow> sorted_wrt (\<lambda>x y. cmp x y \<le> 0) ys \<Longrightarrow>
           sorted_wrt (\<lambda>x y. cmp x y \<le> 0) (insertBy cmp x ys)"
proof (induction ys)
  case Nil
  then show ?case by simp
next
  case (Cons y ys)
  from Cons.prems have y: "y \<in> S" and ys: "set ys \<subseteq> S" by simp_all
  show ?case
  proof (cases "cmp x y \<le> 0")
    case True
    have "cmp x z \<le> 0" if "z \<in> set ys" for z
    proof -
      from that Cons.prems have "cmp y z \<le> 0" by simp
      moreover from that ys have "z \<in> S" by blast
      ultimately show ?thesis using trans[OF Cons.prems(1) y _ True] by blast
    qed
    with True Cons.prems show ?thesis by simp
  next
    case False
    with total[OF Cons.prems(1) y] have "cmp y x \<le> 0" by blast
    with False Cons.prems Cons.IH[OF Cons.prems(1) ys] show ?thesis
      by (auto simp: set_insertBy)
  qed
qed

lemma sorted_sortBy:
  assumes total: "\<And>x y. x \<in> S \<Longrightarrow> y \<in> S \<Longrightarrow> cmp x y \<le> 0 \<or> cmp y x \<le> 0"
    and trans: "\<And>x y z. x \<in> S \<Longrightarrow> y \<in> S \<Longrightarrow> z \<in> S \<Longrightarrow>
                  cmp x y \<le> 0 \<Longrightarrow> cmp y z \<le> 0 \<Longrightarrow> cmp x z \<le> 0"
  shows "set xs \<subseteq> S \<Longrightarrow> sorted_wrt (\<lambda>x y. cmp x y \<le> 0) (sortBy cmp xs)"
proof (induction xs)
  case Nil
  then show ?case by (simp add: sortBy_def)
next
  case (Cons x xs)
  from Cons.prems have x: "x \<in> S" and xs: "set xs \<subseteq> S" by simp_all
  from xs have "set (sortBy cmp xs) \<subseteq> S" by (simp add: set_sortBy)
  from sorted_insertBy[of S cmp, OF total trans x this Cons.IH[OF xs]]
  show ?case by (simp add: sortBy_def)
qed

text \<open>The entries whose value is a number, and that number.\<close>

lemma byCountDesc_numbers:
  "byCountDesc (k, Num a) (k', Num b) \<le> 0 \<longleftrightarrow> b \<le> a"
  by (simp add: byCountDesc_def)

lemma sorted_byCountDesc:
  assumes "list_all (\<lambda>e. \<exists>n. snd e = Num n) xs"
  shows "sorted_wrt (\<lambda>x y. byCountDesc x y \<le> 0) (sortBy byCountDesc xs)"
proof (rule sorted_sortBy[where S = "{e. \<exists>n. snd e = Num n}"])
  fix x y :: "string \<times> jsval"
  assume "x \<in> {e. \<exists>n. snd e = Num n}" "y \<in> {e. \<exists>n. snd e = Num n}"
  then show "byCountDesc x y \<le> 0 \<or> byCountDesc y x \<le> 0"
    by (auto simp: byCountDesc_def)
next
  fix x y z :: "string \<times> jsval"
  assume "x \<in> {e. \<exists>n. snd e = Num n}" "y \<in> {e. \<exists>n. snd e = Num n}"
    "z \<in> {e. \<exists>n. snd e = Num n}" "byCountDesc x y \<le> 0" "byCountDesc y z \<le> 0"
  then show "byCountDesc x z \<le> 0"
    by (auto simp: byCountDesc_def)
next
  from assms show "set xs \<subseteq> {e. \<exists>n. snd e = Num n}"
    by (auto simp: list_all_iff)
qed

lemma sorted_byKeyDesc:
  assumes total: "\<And>a b. localeCompare a b \<le> 0 \<or> localeCompare b a \<le> 0"
    and trans: "\<And>a b c. localeCompare a b \<le> 0 \<Longrightarrow> localeCompare b c \<le> 0 \<Longrightarrow>
                  localeCompare a c \<le> 0"
  shows "sorted_wrt (\<lambda>x y. localeCompare (fst y) (fst x) \<le> 0)
           (sortBy (byKeyDesc localeCompare) xs)"
proof -
  have "sorted_wrt (\<lambda>x y. byKeyDesc localeCompare x y \<le> 0)
          (sortBy (byKeyDesc localeCompare) xs)"
  proof (rule sorted_sortBy[where S = UNIV])
    fix x y :: "string \<times> jsval"
    show "byKeyDesc localeCompare x y \<le> 0 \<or> byKeyDesc localeCompare y x \<le> 0"
      using total[of "fst x" "fst y"] by (auto simp: byKeyDesc_def)
  next
    fix x y z :: "string \<times> jsval"
    assume "byKeyDesc localeCompare x y \<le> 0" "byKeyDesc localeCompare y z \<le> 0"
    then show "byKeyDesc localeCompare x z \<le> 0"
      using trans[of "fst z" "fst y" "fst x"] by (simp add: byKeyDesc_def)
  qed simp
  then show ?thesis by (simp add: byKeyDesc_def)
qed

lemma set_replaceValue_absent: "k \<notin> fst ` set obj \<Longrightarrow> replaceValue k v obj = obj"
  by (induction obj) auto

lemma set_insertIndex: "set (insertIndex k v obj) = insert (k, v) (set obj)"
proof (induction obj)
  case Nil
  show ?case by simp
next
  case (Cons p obj)
  obtain k' v' where p: "p = (k', v')" by (cases p)
  show ?case
  proof (cases "isArrayIndex k' \<and> parseDecimal k' < parseDecimal k")
    case True
    with Cons.IH p show ?thesis by auto
  next
    case False
    with p show ?thesis by auto
  qed
qed

lemma set_objSet_new: "k \<notin> fst ` set obj \<Longrightarrow> set (objSet obj k v) = insert (k, v) (set obj)"
  by (simp add: objSet_def set_insertIndex)

lemma distinct_insertIndex:
  "k \<notin> fst ` set obj \<Longrightarrow> distinct (map fst obj) \<Longrightarrow> distinct (map fst (insertIndex k v obj))"
proof (induction obj)
  case Nil
  then show ?case by simp
next
  case (Cons p obj)
  obtain k' v' where p: "p = (k', v')" by (cases p)
  from Cons.prems p have "k' \<noteq> k" "k \<notin> fst ` set obj" "k' \<notin> fst ` set obj" "distinct (map fst obj)"
    by auto
  with Cons.IH p show ?case by (auto simp: set_insertIndex)
qed

lemma distinct_objSet_new:
  "k \<notin> fst ` set obj \<Longrightarrow> distinct (map fst obj) \<Longrightarrow> distinct (map fst (objSet obj k v))"
  by (simp add: objSet_def distinct_insertIndex)

lemma set_foldl_objSet:
  "distinct (map fst (acc @ entries)) \<Longrightarrow>
     set (foldl (\<lambda>acc (k, v). objSet acc k v) acc entries) = set acc \<union> set entries"
proof (induction entries arbitrary: acc)
  case Nil
  then show ?case by simp
next
  case (Cons e entries)
  obtain k v where e: "e = (k, v)" by (cases e)
  with Cons.prems have new: "k \<notin> fst ` set acc" by auto
  then have s: "set (objSet acc k v) = insert (k, v) (set acc)" by (rule set_objSet_new)
  then have ks: "fst ` set (objSet acc k v) = insert k (fst ` set acc)" by simp
  have d1: "distinct (map fst (objSet acc k v))"
    using Cons.prems new by (simp add: distinct_objSet_new)
  have d2: "distinct (map fst entries)" using Cons.prems by simp
  have d3: "fst ` set (objSet acc k v) \<inter> fst ` set entries = {}"
    using Cons.prems e ks by auto
  from d1 d2 d3 have "distinct (map fst (objSet acc k v @ entries))" by simp
  from Cons.IH[OF this] s e show ?case by simp
qed


lemma set_reduceToObject:
  "distinct (map fst entries) \<Longrightarrow> set (reduceToObject entries) = set entries"
  using set_foldl_objSet[of "[]" entries] by (simp add: reduceToObject_def)

lemma distinct_take_sortBy:
  "distinct (map fst xs) \<Longrightarrow> distinct (map fst (take n (sortBy cmp xs)))"
  by (simp add: distinct_sortBy flip: take_map)

text \<open>
  The entries of the summary are the right ones whatever the keys, when the client counts
  are numbers and the collation is a total order: the 20 first client addresses of the
  sorted list, the 24 first hour buckets of the sorted list, and every tool.
\<close>

lemma analyticsSummary_contents:
  assumes "distinct (map fst (clientsByIp a))" "distinct (map fst (hourlyRequests a))"
    "distinct (map fst (toolCalls a))"
    and "list_all (\<lambda>e. \<exists>n. snd e = Num n) (clientsByIp a)"
    and "\<And>a b. localeCompare a b \<le> 0 \<or> localeCompare b a \<le> 0"
    and "\<And>a b c. localeCompare a b \<le> 0 \<Longrightarrow> localeCompare b c \<le> 0 \<Longrightarrow>
           localeCompare a c \<le> 0"
  shows "set (sum_byIp (analyticsSummary localeCompare a))
           = set (take 20 (sortBy byCountDesc (clientsByIp a)))
       \<and> set (sum_hourlyRequests (analyticsSummary localeCompare a))
           = set (take 24 (sortBy (byKeyDesc localeCompare) (hourlyRequests a)))
       \<and> set (sum_byTool (analyticsSummary localeCompare a)) = set (toolCalls a)"
proof -
  have "set (sortedClients a) = set (take 20 (sortBy byCountDesc (clientsByIp a)))"
    unfolding sortedClients_def
    by (rule set_reduceToObject) (rule distinct_take_sortBy[OF assms(1)])
  moreover have "set (last24Hours localeCompare a)
                   = set (take 24 (sortBy (byKeyDesc localeCompare) (hourlyRequests a)))"
    unfolding last24Hours_def
    using set_reduceToObject[of "rev (take 24 (sortBy (byKeyDesc localeCompare) (hourlyRequests a)))"]
      distinct_take_sortBy[OF assms(2), of 24 "byKeyDesc localeCompare"]
    by (simp add: rev_map[symmetric])
  moreover have "set (sortedTools a) = set (toolCalls a)"
    unfolding sortedTools_def
    using set_reduceToObject[of "sortBy byCountDesc (toolCalls a)"] assms(3)
    by (simp add: distinct_sortBy set_sortBy)
  ultimately show ?thesis by (simp add: analyticsSummary_def)
qed

lemma plain_take_sortBy:
  "list_all (\<lambda>e. \<not> isArrayIndex (fst e)) xs \<Longrightarrow>
     list_all (\<lambda>e. \<not> isArrayIndex (fst e)) (take n (sortBy cmp xs))"
  using set_take_subset[of n "sortBy cmp xs"] by (auto simp: list_all_iff set_sortBy)

text \<open>
  When no key is an array index, every count is a number and the collation is a total
  order, the summary also lists the entries in the right order: clients and tools by
  descending count, hours with the greatest key last.
\<close>

lemma analyticsSummary_plain_keys:
  assumes "distinct (map fst (clientsByIp a))" "distinct (map fst (hourlyRequests a))"
    "distinct (map fst (toolCalls a))"
    and "list_all (\<lambda>e. \<not> isArrayIndex (fst e)) (clientsByIp a)"
    and "list_all (\<lambda>e. \<not> isArrayIndex (fst e)) (hourlyRequests a)"
    and "list_all (\<lambda>e. \<not> isArrayIndex (fst e)) (toolCalls a)"
    and "list_all (\<lambda>e. \<exists>n. snd e = Num n) (clientsByIp a)"
    and "list_all (\<lambda>e. \<exists>n. snd e = Num n) (toolCalls a)"
    and total: "\<And>a b. localeCompare a b \<le> 0 \<or> localeCompare b a \<le> 0"
    and trans: "\<And>a b c. localeCompare a b \<le> 0 \<Longrightarrow> localeCompare b c \<le> 0 \<Longrightarrow>
                  localeCompare a c \<le> 0"
  shows "sum_byIp (analyticsSummary localeCompare a) = take 20 (sortBy byCountDesc (clientsByIp a))
       \<and> sorted_wrt (\<lambda>x y. byCountDesc x y \<le> 0) (sum_byIp (analyticsSummary localeCompare a))
       \<and> sum_hourlyRequests (analyticsSummary localeCompare a)
           = rev (take 24 (sortBy (byKeyDesc localeCompare) (hourlyRequests a)))
       \<and> sorted_wrt (\<lambda>x y. localeCompare (fst x) (fst y) \<le> 0)
            (sum_hourlyRequests (analyticsSummary localeCompare a))
       \<and> sum_byTool (analyticsSummary localeCompare a) = sortBy byCountDesc (toolCalls a)
       \<and> sorted_wrt (\<lambda>x y. byCountDesc x y \<le> 0) (sum_byTool (analyticsSummary localeCompare a))"
proof -
  have ip: "sortedClients a = take 20 (sortBy byCountDesc (clientsByIp a))"
    unfolding sortedClients_def
    by (rule reduceToObject_plain)
       (rule distinct_take_sortBy[OF assms(1)], rule plain_take_sortBy[OF assms(4)])
  have hr: "last24Hours localeCompare a
              = rev (take 24 (sortBy (byKeyDesc localeCompare) (hourlyRequests a)))"
    unfolding last24Hours_def
    using reduceToObject_plain[of "rev (take 24 (sortBy (byKeyDesc localeCompare) (hourlyRequests a)))"]
      distinct_take_sortBy[OF assms(2), of 24 "byKeyDesc localeCompare"]
      plain_take_sortBy[OF assms(5), of 24 "byKeyDesc localeCompare"]
    by (simp add: rev_map[symmetric] list_all_iff)
  have tl: "sortedTools a = sortBy byCountDesc (toolCalls a)"
    unfolding sortedTools_def
    using reduceToObject_plain[of "sortBy byCountDesc (toolCalls a)"] assms(3,6)
    by (simp add: distinct_sortBy set_sortBy list_all_iff)
  have s1: "sorted_wrt (\<lambda>x y. byCountDesc x y \<le> 0) (take 20 (sortBy byCountDesc (clientsByIp a)))"
    by (rule sorted_wrt_take) (rule sorted_byCountDesc[OF assms(7)])
  have "sorted_wrt (\<lambda>x y. localeCompare (fst y) (fst x) \<le> 0)
          (take 24 (sortBy (byKeyDesc localeCompare) (hourlyRequests a)))"
    by (rule sorted_wrt_take) (rule sorted_byKeyDesc[OF total trans])
  then have s2: "sorted_wrt (\<lambda>x y. localeCompare (fst x) (fst y) \<le> 0)
          (rev (take 24 (sortBy (byKeyDesc localeCompare) (hourlyRequests a))))"
    by (simp add: sorted_wrt_rev)
  from ip hr tl s1 s2 sorted_byCountDesc[OF assms(8)]
  show ?thesis by (simp add: analyticsSummary_def)
qed

lemma afterThreeCalls_value:
  "afterThreeCalls =
     \<lparr>serverStartTime = ''2026-01-01T09:00:00.000Z'', totalRequests = 3, totalToolCalls = 3,
      requestsByMethod = [(''POST'', Num 3)], requestsByEndpoint = [(''/mcp'', Num 3)],
      toolCalls = [(''7'', Num 1), (''create_note'', Num 2)],
      recentToolCalls =
        [\<lparr>tc_tool = ''7'', tc_timestamp = ''2026-01-01T10:00:02.000Z'', tc_clientIp = ''1.2.3.4''\<rparr>,
         \<lparr>tc_tool = ''create_note'', tc_timestamp = ''2026-01-01T10:00:01.000Z'',
            tc_clientIp = ''1.2.3.4''\<rparr>,
         \<lparr>tc_tool = ''create_note'', tc_timestamp = ''2026-01-01T10:00:00.000Z'',
            tc_clientIp = ''1.2.3.4''\<rparr>],
      clientsByIp = [(''1.2.3.4'', Num 3)], clientsByUserAgent = [(''curl'', Num 3)],
      hourlyRequests = [(''2026-01-01T10:00'', Num 3)]\<rparr>"
  by (simp add: afterThreeCalls_def threeCalls_def defaultAnalytics_def trackRequest_def
        trackToolCall_def Let_def curl_def clientIpOf_def orElse_def increment_def objGet_def
        objSet_def objectPrototype_def jsSucc_def isArrayIndex_def isDigit_def parseDecimal_def)

text \<open>
  Claim C6, evaluated where the code departs from it. After two calls of the tool
  \<open>create_note\<close> and one call of a tool that the client names \<open>7\<close>, the entries are
  sorted by descending count, \<open>create_note\<close> first; rebuilt as an object, the array index
  \<open>7\<close> is enumerated first, so the tool breakdown of the summary is in ascending order of
  frequency, whatever the collation of the host.
\<close>

theorem getAnalytics_index_key_first:
  "toolCalls afterThreeCalls = [(''7'', Num 1), (''create_note'', Num 2)]
   \<and> sortBy byCountDesc (toolCalls afterThreeCalls) = [(''create_note'', Num 2), (''7'', Num 1)]
   \<and> sum_byTool (snd (getAnalytics localeCompare afterThreeCalls curl ''2026-01-01T11:30:00.000Z''))
       = [(''7'', Num 1), (''create_note'', Num 2)]"
  by (simp add: afterThreeCalls_value getAnalytics_def Let_def trackRequest_def
        analyticsSummary_def sortedTools_def sortBy_def byCountDesc_def reduceToObject_def
        objSet_def isArrayIndex_def isDigit_def parseDecimal_def)

end
